theory Spec2Isabelle
  imports Main "HOL-Library.Word" "HOL-Library.Sublist"
begin

unbundle bit_operations_syntax

section \<open>The LIN decoder of lin_decoder.cpp as a state machine\<close>

text \<open>
  The decoder is a set of file-level variables that an interrupt routine (one call per
  serial bit period) and the main program share. The model collects the variables in one
  record and passes it through every function. What the routine reads from the hardware
  is an input of the model: the level of the RX pin sampled at the start of the routine,
  and the successive readings (pin level, 16-bit clock) that the busy-wait loops take.
  The debugging LEDs and the writes to the timer counter TCNT2 are outputs to the hardware
  that no variable of the decoder depends on; they are left out. The members of the state
  classes lose the underscore that ends their names in the source.
\<close>

subsection \<open>Data\<close>

type_synonym uint8 = "8 word"
type_synonym uint16 = "16 word"

text \<open>\<^verbatim>\<open>struct RxFrameBuffer { uint8 num_bytes; uint8 bytes[kMaxBytes]; }\<close>\<close>

record RxFrameBuffer =
  num_bytes :: uint8
  bytes :: "uint8 list"

definition kMaxBytes :: uint8 where
  "kMaxBytes = 11"

definition kMaxFrameBuffers :: uint8 where
  "kMaxFrameBuffers = 8"

text \<open>
  The anonymous enum of the variable \<^verbatim>\<open>state\<close>. The \<^verbatim>\<open>default\<close> branch of the
  switch in the interrupt routine is for values outside the enum, which a datatype of two
  constructors does not have.
\<close>

datatype state_t = DETECT_BREAK | READ_DATA

text \<open>An access outside an array, or a busy-wait loop that the readings never end.\<close>

datatype fault = OutOfBounds | NoReturn

record decoder =
  request_buffer_has_data :: bool
  request_buffer :: RxFrameBuffer
  rx_frame_buffers :: "RxFrameBuffer list"
  head_frame_buffer :: uint8
  tail_frame_buffer :: uint8
  state :: state_t
  low_bits_counter :: uint8
  bytes_read :: uint8
  bits_read_in_byte :: uint8
  byte_buffer :: uint8
  byte_buffer_bit_mask :: uint8
  error_flag :: bool

text \<open>
  One reading of the hardware inside a busy-wait loop: whether RX is high, and the value
  of \<^verbatim>\<open>clock::hardware_ticks_mod_16_bit()\<close>.
\<close>

type_synonym hw_reading = "bool \<times> uint16"

text \<open>
  The input of one run of the interrupt routine: the value of \<^verbatim>\<open>isRxHigh()\<close> at its
  start, and the readings its busy-wait loops take afterwards.
\<close>

record isr_input =
  is_rx_high :: bool
  polls :: "hw_reading list"

subsection \<open>Main side: reading frames, the error flag\<close>

text \<open>
  \<^verbatim>\<open>readNextFrame(RxFrameBuffer* buffer)\<close>: the result, the caller's buffer and the
  decoder afterwards.
\<close>

definition readNextFrame :: "RxFrameBuffer \<Rightarrow> decoder \<Rightarrow> bool \<times> RxFrameBuffer \<times> decoder" where
  "readNextFrame buffer s =
     (if request_buffer_has_data s
      then (True, request_buffer s, s\<lparr>request_buffer_has_data := False\<rparr>)
      else (False, buffer, s))"

definition initBuffers :: "decoder \<Rightarrow> decoder" where
  "initBuffers s =
     s\<lparr>head_frame_buffer := 0, tail_frame_buffer := 0, request_buffer_has_data := False,
       request_buffer := (request_buffer s)\<lparr>num_bytes := 0\<rparr>\<rparr>"

definition incrementTailFrameBuffer :: "decoder \<Rightarrow> decoder" where
  "incrementTailFrameBuffer s =
     (let t = tail_frame_buffer s + 1
      in s\<lparr>tail_frame_buffer := (if t \<ge> kMaxFrameBuffers then 0 else t)\<rparr>)"

definition incrementHeadFrameBuffer :: "decoder \<Rightarrow> decoder" where
  "incrementHeadFrameBuffer s =
     (let h = head_frame_buffer s + 1
      in s\<lparr>head_frame_buffer := (if h \<ge> kMaxFrameBuffers then 0 else h)\<rparr>)"

definition setErrorFlag :: "decoder \<Rightarrow> decoder" where
  "setErrorFlag s = s\<lparr>error_flag := True\<rparr>"

definition hasErrors :: "decoder \<Rightarrow> bool" where
  "hasErrors s = error_flag s"

definition clearErrors :: "decoder \<Rightarrow> decoder" where
  "clearErrors s = s\<lparr>error_flag := False\<rparr>"

subsection \<open>Busy-wait loops\<close>

text \<open>
  \<^verbatim>\<open>waitForRxLow(maxClockTicks)\<close> reads the clock once (the base), then loops: read the
  pin and return true if it is low; read the clock and return false if the difference to
  the base, modulo \<open>2^16\<close>, has reached \<^verbatim>\<open>maxClockTicks\<close>. Each turn of the loop takes
  one reading. The result is the value returned and the readings left; \<open>None\<close> when the
  readings end before the loop returns.
\<close>

fun waitForRxLow_loop :: "uint16 \<Rightarrow> uint16 \<Rightarrow> hw_reading list \<Rightarrow> (bool \<times> hw_reading list) option" where
  "waitForRxLow_loop maxClockTicks base_clock [] = None"
| "waitForRxLow_loop maxClockTicks base_clock ((rx_high, clk) # hw) =
     (if \<not> rx_high then Some (True, hw)
      else if clk - base_clock \<ge> maxClockTicks then Some (False, hw)
      else waitForRxLow_loop maxClockTicks base_clock hw)"

fun waitForRxLow :: "uint16 \<Rightarrow> hw_reading list \<Rightarrow> (bool \<times> hw_reading list) option" where
  "waitForRxLow maxClockTicks [] = None"
| "waitForRxLow maxClockTicks ((_, base_clock) # hw) = waitForRxLow_loop maxClockTicks base_clock hw"

fun waitForRxHigh_loop :: "uint16 \<Rightarrow> uint16 \<Rightarrow> hw_reading list \<Rightarrow> (bool \<times> hw_reading list) option" where
  "waitForRxHigh_loop maxClockTicks base_clock [] = None"
| "waitForRxHigh_loop maxClockTicks base_clock ((rx_high, clk) # hw) =
     (if rx_high then Some (True, hw)
      else if clk - base_clock \<ge> maxClockTicks then Some (False, hw)
      else waitForRxHigh_loop maxClockTicks base_clock hw)"

fun waitForRxHigh :: "uint16 \<Rightarrow> hw_reading list \<Rightarrow> (bool \<times> hw_reading list) option" where
  "waitForRxHigh maxClockTicks [] = None"
| "waitForRxHigh maxClockTicks ((_, base_clock) # hw) = waitForRxHigh_loop maxClockTicks base_clock hw"

subsection \<open>The hand-off to the main program\<close>

definition maybeServiceRxRequest :: "decoder \<Rightarrow> fault + decoder" where
  "maybeServiceRxRequest s =
     (if \<not> request_buffer_has_data s \<and> tail_frame_buffer s \<noteq> head_frame_buffer s
      then (if unat (tail_frame_buffer s) < length (rx_frame_buffers s)
            then Inr ((incrementTailFrameBuffer
                         (s\<lparr>request_buffer := rx_frame_buffers s ! unat (tail_frame_buffer s)\<rparr>))
                      \<lparr>request_buffer_has_data := True\<rparr>)
            else Inl OutOfBounds)
      else Inr s)"

subsection \<open>The detect-break state\<close>

definition StateDetectBreak_enter :: "decoder \<Rightarrow> decoder" where
  "StateDetectBreak_enter s = s\<lparr>state := DETECT_BREAK, low_bits_counter := 0\<rparr>"

text \<open>
  \<^verbatim>\<open>StateReadData::enter\<close>: the write to \<^verbatim>\<open>rx_frame_buffers[head_frame_buffer].num_bytes\<close>
  is inside the array only when the head index is; the result of \<^verbatim>\<open>waitForRxLow(255)\<close>
  is not looked at.
\<close>

definition StateReadData_enter :: "hw_reading list \<Rightarrow> decoder \<Rightarrow> fault + decoder" where
  "StateReadData_enter hw s =
     (let s1 = s\<lparr>state := READ_DATA, bytes_read := 0, bits_read_in_byte := 0\<rparr>;
          h = unat (head_frame_buffer s1)
      in if h < length (rx_frame_buffers s1)
         then (let s2 = s1\<lparr>rx_frame_buffers :=
                              (rx_frame_buffers s1)[h := (rx_frame_buffers s1 ! h)\<lparr>num_bytes := 0\<rparr>]\<rparr>
               in case waitForRxLow 255 hw of
                    None \<Rightarrow> Inl NoReturn
                  | Some _ \<Rightarrow> Inr s2)
         else Inl OutOfBounds)"

definition StateDetectBreak_handle_isr :: "isr_input \<Rightarrow> decoder \<Rightarrow> fault + decoder" where
  "StateDetectBreak_handle_isr inp s =
     (if is_rx_high inp then Inr (s\<lparr>low_bits_counter := 0\<rparr>)
      else (let s1 = s\<lparr>low_bits_counter := low_bits_counter s + 1\<rparr>
            in if low_bits_counter s1 < 10 then Inr s1
               else (case waitForRxHigh 255 (polls inp) of
                       None \<Rightarrow> Inl NoReturn
                     | Some (_, hw) \<Rightarrow> StateReadData_enter hw s1)))"

subsection \<open>The read-data state\<close>

text \<open>
  The stop-bit branch up to the wait: \<^verbatim>\<open>frame_buffer->bytes[frame_buffer->num_bytes++] =
  byte_buffer_\<close> on the slot at the head index, then \<^verbatim>\<open>bytes_read_++\<close> and
  \<^verbatim>\<open>bits_read_in_byte_ = 0\<close>. The write is inside the arrays only when the head index
  and the slot's count are.
\<close>

definition append_byte :: "decoder \<Rightarrow> fault + decoder" where
  "append_byte s =
     (let h = unat (head_frame_buffer s)
      in if h < length (rx_frame_buffers s)
         then (let frame_buffer = rx_frame_buffers s ! h;
                   n = unat (num_bytes frame_buffer)
               in if n < length (bytes frame_buffer)
                  then Inr (s\<lparr>rx_frame_buffers := (rx_frame_buffers s)
                                 [h := frame_buffer\<lparr>bytes := (bytes frame_buffer)[n := byte_buffer s],
                                                    num_bytes := num_bytes frame_buffer + 1\<rparr>],
                               bytes_read := bytes_read s + 1,
                               bits_read_in_byte := 0\<rparr>)
                  else Inl OutOfBounds)
         else Inl OutOfBounds)"

text \<open>
  \<^verbatim>\<open>StateReadData::handle_isr\<close>. The constant \<^verbatim>\<open>kClockTicksPerBit\<close> is computed from
  \<^verbatim>\<open>clock::kHardwareTicksPerSecond\<close> of clock.h, which is not among the sources; it is the
  first argument. \<^verbatim>\<open>kClockTicksPerBit * 4\<close> is computed in \<^verbatim>\<open>int\<close> and cannot overflow.
\<close>

definition StateReadData_handle_isr :: "uint8 \<Rightarrow> isr_input \<Rightarrow> decoder \<Rightarrow> fault + decoder" where
  "StateReadData_handle_isr kClockTicksPerBit inp s =
     (if bits_read_in_byte s = 0 then
        (if is_rx_high inp then Inr (StateDetectBreak_enter (setErrorFlag s))
         else Inr (s\<lparr>bits_read_in_byte := bits_read_in_byte s + 1,
                     byte_buffer := 0, byte_buffer_bit_mask := 1\<rparr>))
      else if bits_read_in_byte s \<le> 8 then
        Inr (s\<lparr>byte_buffer := (if is_rx_high inp then byte_buffer s OR byte_buffer_bit_mask s
                                 else byte_buffer s),
               byte_buffer_bit_mask := push_bit 1 (byte_buffer_bit_mask s),
               bits_read_in_byte := bits_read_in_byte s + 1\<rparr>)
      else if \<not> is_rx_high inp then Inr (StateDetectBreak_enter (setErrorFlag s))
      else (case append_byte s of
              Inl f \<Rightarrow> Inl f
            | Inr s2 \<Rightarrow>
               (case waitForRxLow (ucast kClockTicksPerBit * 4) (polls inp) of
                  None \<Rightarrow> Inl NoReturn
                | Some (has_more_bytes, _) \<Rightarrow>
                   (if \<not> has_more_bytes then
                      (if bytes_read s2 < 4 then Inr (StateDetectBreak_enter (setErrorFlag s2))
                       else (let s3 = incrementHeadFrameBuffer s2;
                                 s4 = (if tail_frame_buffer s3 = head_frame_buffer s3
                                       then incrementTailFrameBuffer (setErrorFlag s3) else s3)
                             in Inr (StateDetectBreak_enter s4)))
                    else if num_bytes (rx_frame_buffers s2 ! unat (head_frame_buffer s2)) \<ge> kMaxBytes
                      then Inr (StateDetectBreak_enter (setErrorFlag s2))
                    else Inr s2))))"

text \<open>The switch on \<^verbatim>\<open>state\<close> at the start of the routine.\<close>

definition dispatch :: "uint8 \<Rightarrow> isr_input \<Rightarrow> decoder \<Rightarrow> fault + decoder" where
  "dispatch kClockTicksPerBit inp s =
     (case state s of
        DETECT_BREAK \<Rightarrow> StateDetectBreak_handle_isr inp s
      | READ_DATA \<Rightarrow> StateReadData_handle_isr kClockTicksPerBit inp s)"

text \<open>\<^verbatim>\<open>ISR(TIMER2_COMPA_vect)\<close>: the switch, then \<^verbatim>\<open>maybeServiceRxRequest()\<close>.\<close>

definition isr :: "uint8 \<Rightarrow> isr_input \<Rightarrow> decoder \<Rightarrow> fault + decoder" where
  "isr kClockTicksPerBit inp s =
     (case dispatch kClockTicksPerBit inp s of
        Inl f \<Rightarrow> Inl f
      | Inr s1 \<Rightarrow> maybeServiceRxRequest s1)"

text \<open>\<^verbatim>\<open>init()\<close>; the pin and timer set-up touch hardware registers only.\<close>

definition init :: "decoder \<Rightarrow> decoder" where
  "init s = clearErrors (StateDetectBreak_enter (initBuffers s))"

text \<open>The variables as the C++ start-up leaves them: static storage is zeroed.\<close>

definition power_on :: decoder where
  "power_on =
     \<lparr>request_buffer_has_data = False,
      request_buffer = \<lparr>num_bytes = 0, bytes = replicate 11 0\<rparr>,
      rx_frame_buffers = replicate 8 \<lparr>num_bytes = 0, bytes = replicate 11 0\<rparr>,
      head_frame_buffer = 0, tail_frame_buffer = 0, state = DETECT_BREAK,
      low_bits_counter = 0, bytes_read = 0, bits_read_in_byte = 0,
      byte_buffer = 0, byte_buffer_bit_mask = 0, error_flag = False\<rparr>"

subsection \<open>Well-formed decoders\<close>

text \<open>
  The indices are inside the ring of 8 slots, every slot has its 11 bytes and a count of
  at most 11, as the hand-off slot has, and while data is read the slot being written has room for one more byte
  and its count is the number of bytes read.
\<close>

definition well_formed :: "decoder \<Rightarrow> bool" where
  "well_formed s \<longleftrightarrow>
     head_frame_buffer s < 8 \<and> tail_frame_buffer s < 8 \<and> length (rx_frame_buffers s) = 8 \<and>
     (\<forall>fb \<in> set (rx_frame_buffers s). length (bytes fb) = 11 \<and> num_bytes fb \<le> 11) \<and>
     num_bytes (request_buffer s) \<le> 11 \<and>
     (state s = READ_DATA \<longrightarrow>
        num_bytes (rx_frame_buffers s ! unat (head_frame_buffer s)) < 11 \<and>
        bytes_read s = num_bytes (rx_frame_buffers s ! unat (head_frame_buffer s)))"

subsection \<open>Runs of the system\<close>

text \<open>
  What happens to a decoder: the timer interrupt fires, or the main program calls
  \<^verbatim>\<open>readNextFrame\<close> (with the buffer it passes) or \<^verbatim>\<open>clearErrors\<close>. A run gives the
  frames that \<^verbatim>\<open>readNextFrame\<close> returned, in order, and the decoder at the end; it stops
  at the first fault.
\<close>

datatype event = Tick isr_input | Read RxFrameBuffer | Clear

fun exec :: "uint8 \<Rightarrow> event list \<Rightarrow> decoder \<Rightarrow> fault + (RxFrameBuffer list \<times> decoder)" where
  "exec k [] s = Inr ([], s)"
| "exec k (Tick inp # evs) s =
     (case isr k inp s of Inl f \<Rightarrow> Inl f | Inr s' \<Rightarrow> exec k evs s')"
| "exec k (Read buffer # evs) s =
     (case readNextFrame buffer s of
        (got, buffer', s') \<Rightarrow>
          (case exec k evs s' of
             Inl f \<Rightarrow> Inl f
           | Inr (out, s'') \<Rightarrow> Inr ((if got then [buffer'] else []) @ out, s'')))"
| "exec k (Clear # evs) s = exec k evs (clearErrors s)"

text \<open>The samples of the RX pin that the interrupts of a run take.\<close>

fun samples :: "event list \<Rightarrow> bool list" where
  "samples [] = []"
| "samples (Tick inp # evs) = is_rx_high inp # samples evs"
| "samples (Read buffer # evs) = samples evs"
| "samples (Clear # evs) = samples evs"

text \<open>The read-data handler alone, fed one input after the other.\<close>

fun feed :: "uint8 \<Rightarrow> isr_input list \<Rightarrow> decoder \<Rightarrow> fault + decoder" where
  "feed k [] s = Inr s"
| "feed k (inp # inps) s =
     (case StateReadData_handle_isr k inp s of Inl f \<Rightarrow> Inl f | Inr s' \<Rightarrow> feed k inps s')"

text \<open>
  The ten samples of a byte on the line: a low start bit, the eight bits from the least
  significant one (a high sample for a 1), a high stop bit.
\<close>

definition encode_byte :: "uint8 \<Rightarrow> bool list" where
  "encode_byte b = False # map (bit b) [0..<8] @ [True]"

subsection \<open>The frames waiting for the main program\<close>

text \<open>
  The slots of the ring from the tail index up to, not including, the head index, oldest
  first; with the hand-off slot in front when it is full, the frames not yet read.
\<close>

definition ring_slice :: "'a list \<Rightarrow> nat \<Rightarrow> nat \<Rightarrow> 'a list" where
  "ring_slice xs t h = map (\<lambda>i. xs ! ((t + i) mod 8)) [0..<(8 + h - t) mod 8]"

definition queue_contents :: "decoder \<Rightarrow> RxFrameBuffer list" where
  "queue_contents s =
     ring_slice (rx_frame_buffers s) (unat (tail_frame_buffer s)) (unat (head_frame_buffer s))"

definition pending :: "decoder \<Rightarrow> RxFrameBuffer list" where
  "pending s = (if request_buffer_has_data s then [request_buffer s] else []) @ queue_contents s"

text \<open>
  The frames not yet read that are still there once one more frame is queued: all of them
  while the ring has room, all but the oldest of the ring when it holds 7 frames.
\<close>

definition earlier_frames :: "decoder \<Rightarrow> RxFrameBuffer list" where
  "earlier_frames s =
     (if length (queue_contents s) = 7
      then (if request_buffer_has_data s then [request_buffer s] else []) @ tl (queue_contents s)
      else pending s)"

text \<open>
  The frame in the slot at the head index once the byte being received is appended to it.
\<close>

definition frame_with_byte :: "decoder \<Rightarrow> RxFrameBuffer" where
  "frame_with_byte s =
     (let fb = rx_frame_buffers s ! unat (head_frame_buffer s)
      in fb\<lparr>bytes := (bytes fb)[unat (num_bytes fb) := byte_buffer s],
            num_bytes := num_bytes fb + 1\<rparr>)"

subsection \<open>The branches of the read-data handler by name\<close>

text \<open>What the wait for the next start bit returns, if it returns.\<close>

definition next_start_bit :: "uint8 \<Rightarrow> isr_input \<Rightarrow> bool option" where
  "next_start_bit k inp = map_option fst (waitForRxLow (ucast k * 4) (polls inp))"

text \<open>A high stop bit is sampled and no start bit follows within the timeout.\<close>

definition frame_ends :: "uint8 \<Rightarrow> isr_input \<Rightarrow> decoder \<Rightarrow> bool" where
  "frame_ends k inp s \<longleftrightarrow>
     state s = READ_DATA \<and> 8 < bits_read_in_byte s \<and> is_rx_high inp \<and>
     next_start_bit k inp = Some False"

definition frame_completes :: "uint8 \<Rightarrow> isr_input \<Rightarrow> decoder \<Rightarrow> bool" where
  "frame_completes k inp s \<longleftrightarrow> frame_ends k inp s \<and> \<not> bytes_read s + 1 < 4"

definition start_bit_violation :: "isr_input \<Rightarrow> decoder \<Rightarrow> bool" where
  "start_bit_violation inp s \<longleftrightarrow>
     state s = READ_DATA \<and> bits_read_in_byte s = 0 \<and> is_rx_high inp"

definition stop_bit_violation :: "isr_input \<Rightarrow> decoder \<Rightarrow> bool" where
  "stop_bit_violation inp s \<longleftrightarrow>
     state s = READ_DATA \<and> 8 < bits_read_in_byte s \<and> \<not> is_rx_high inp"

definition frame_too_short :: "uint8 \<Rightarrow> isr_input \<Rightarrow> decoder \<Rightarrow> bool" where
  "frame_too_short k inp s \<longleftrightarrow> frame_ends k inp s \<and> bytes_read s + 1 < 4"

definition queue_overrun :: "uint8 \<Rightarrow> isr_input \<Rightarrow> decoder \<Rightarrow> bool" where
  "queue_overrun k inp s \<longleftrightarrow>
     frame_completes k inp s \<and>
     tail_frame_buffer s = head_frame_buffer (incrementHeadFrameBuffer s)"

definition capacity_overflow :: "uint8 \<Rightarrow> isr_input \<Rightarrow> decoder \<Rightarrow> bool" where
  "capacity_overflow k inp s \<longleftrightarrow>
     state s = READ_DATA \<and> 8 < bits_read_in_byte s \<and> is_rx_high inp \<and>
     next_start_bit k inp = Some True \<and>
     kMaxBytes \<le> num_bytes (rx_frame_buffers s ! unat (head_frame_buffer s)) + 1"

text \<open>A run in which no interrupt completes a frame.\<close>

fun quiet :: "uint8 \<Rightarrow> event list \<Rightarrow> decoder \<Rightarrow> bool" where
  "quiet k [] s = True"
| "quiet k (Tick inp # evs) s =
     (\<not> frame_completes k inp s \<and>
      (case isr k inp s of Inl f \<Rightarrow> True | Inr s' \<Rightarrow> quiet k evs s'))"
| "quiet k (Read buffer # evs) s = quiet k evs (snd (snd (readNextFrame buffer s)))"
| "quiet k (Clear # evs) s = quiet k evs (clearErrors s)"

text \<open>
  The main program reads \<open>n\<close> times, and after each read the interrupt fires once on an
  idle (high) line.
\<close>

definition drain :: "nat \<Rightarrow> RxFrameBuffer \<Rightarrow> event list" where
  "drain n buffer = concat (replicate n [Read buffer, Tick \<lparr>is_rx_high = True, polls = []\<rparr>])"

section \<open>Reading when nothing is ready\<close>

text \<open>
  C10. When the hand-off flag \<^verbatim>\<open>request_buffer_has_data\<close> is clear, \<^verbatim>\<open>readNextFrame\<close>
  returns false, the caller's buffer is as it was, and no variable of the decoder (hand-off
  slot and flag, ring and indices, error flag) has changed.
\<close>

theorem readNextFrame_nothing_ready:
  "\<not> request_buffer_has_data s \<Longrightarrow> readNextFrame buffer s = (False, buffer, s)"
  by (simp add: readNextFrame_def)

theorem readNextFrame_nothing_ready_witness:
  "\<not> request_buffer_has_data (init power_on) \<and>
   readNextFrame \<lparr>num_bytes = 3, bytes = [1, 2, 3]\<rparr> (init power_on) =
     (False, \<lparr>num_bytes = 3, bytes = [1, 2, 3]\<rparr>, init power_on)"
proof -
  have h: "\<not> request_buffer_has_data (init power_on)"
    by (simp add: init_def power_on_def initBuffers_def clearErrors_def StateDetectBreak_enter_def)
  show ?thesis
    using h readNextFrame_nothing_ready [OF h, of "\<lparr>num_bytes = 3, bytes = [1, 2, 3]\<rparr>"] by simp
qed

section \<open>Well-formedness is kept by every step\<close>

subsection \<open>Indices\<close>

lemma unat_lt8: "(w::uint8) < 8 \<Longrightarrow> unat w < 8"
  by (simp add: word_less_nat_alt)

lemma incr_lt8: "(w::uint8) < 8 \<Longrightarrow> (if w + 1 \<ge> 8 then 0 else w + 1) < 8"
  by (simp add: not_le)

lemma unat_incr8: "(w::uint8) < 8 \<Longrightarrow> unat (if w + 1 \<ge> 8 then 0 else w + 1) = (unat w + 1) mod 8"
  by (auto simp: word_less_nat_alt word_le_nat_alt unat_word_ariths) arith

lemma wf_setErrorFlag: "well_formed (setErrorFlag s) = well_formed s"
  by (simp add: well_formed_def setErrorFlag_def)

lemma wf_clearErrors: "well_formed (clearErrors s) = well_formed s"
  by (simp add: well_formed_def clearErrors_def)

lemma wf_StateDetectBreak_enter: "well_formed s \<Longrightarrow> well_formed (StateDetectBreak_enter s)"
  by (simp add: well_formed_def StateDetectBreak_enter_def)

lemma wf_readNextFrame: "well_formed s \<Longrightarrow> readNextFrame b s = (r, b', s') \<Longrightarrow> well_formed s'"
  by (auto simp: well_formed_def readNextFrame_def split: if_splits)

lemma incrementTailFrameBuffer_eq:
  "incrementTailFrameBuffer s =
     s\<lparr>tail_frame_buffer := (if tail_frame_buffer s + 1 \<ge> 8 then 0 else tail_frame_buffer s + 1)\<rparr>"
  by (simp add: incrementTailFrameBuffer_def kMaxFrameBuffers_def Let_def)

lemma incrementHeadFrameBuffer_eq:
  "incrementHeadFrameBuffer s =
     s\<lparr>head_frame_buffer := (if head_frame_buffer s + 1 \<ge> 8 then 0 else head_frame_buffer s + 1)\<rparr>"
  by (simp add: incrementHeadFrameBuffer_def kMaxFrameBuffers_def Let_def)

subsection \<open>What the small steps leave alone\<close>

lemma StateDetectBreak_enter_fields:
  "state (StateDetectBreak_enter s) = DETECT_BREAK"
  "low_bits_counter (StateDetectBreak_enter s) = 0"
  "head_frame_buffer (StateDetectBreak_enter s) = head_frame_buffer s"
  "tail_frame_buffer (StateDetectBreak_enter s) = tail_frame_buffer s"
  "rx_frame_buffers (StateDetectBreak_enter s) = rx_frame_buffers s"
  "request_buffer (StateDetectBreak_enter s) = request_buffer s"
  "request_buffer_has_data (StateDetectBreak_enter s) = request_buffer_has_data s"
  "error_flag (StateDetectBreak_enter s) = error_flag s"
  by (simp_all add: StateDetectBreak_enter_def)

lemma setErrorFlag_fields:
  "state (setErrorFlag s) = state s"
  "head_frame_buffer (setErrorFlag s) = head_frame_buffer s"
  "tail_frame_buffer (setErrorFlag s) = tail_frame_buffer s"
  "rx_frame_buffers (setErrorFlag s) = rx_frame_buffers s"
  "request_buffer (setErrorFlag s) = request_buffer s"
  "request_buffer_has_data (setErrorFlag s) = request_buffer_has_data s"
  "error_flag (setErrorFlag s) = True"
  by (simp_all add: setErrorFlag_def)

lemma incrementHeadFrameBuffer_fields:
  "head_frame_buffer (incrementHeadFrameBuffer s) =
     (if head_frame_buffer s + 1 \<ge> 8 then 0 else head_frame_buffer s + 1)"
  "state (incrementHeadFrameBuffer s) = state s"
  "tail_frame_buffer (incrementHeadFrameBuffer s) = tail_frame_buffer s"
  "rx_frame_buffers (incrementHeadFrameBuffer s) = rx_frame_buffers s"
  "request_buffer (incrementHeadFrameBuffer s) = request_buffer s"
  "request_buffer_has_data (incrementHeadFrameBuffer s) = request_buffer_has_data s"
  "error_flag (incrementHeadFrameBuffer s) = error_flag s"
  by (simp_all add: incrementHeadFrameBuffer_eq)

lemma incrementTailFrameBuffer_fields:
  "tail_frame_buffer (incrementTailFrameBuffer s) =
     (if tail_frame_buffer s + 1 \<ge> 8 then 0 else tail_frame_buffer s + 1)"
  "state (incrementTailFrameBuffer s) = state s"
  "head_frame_buffer (incrementTailFrameBuffer s) = head_frame_buffer s"
  "rx_frame_buffers (incrementTailFrameBuffer s) = rx_frame_buffers s"
  "request_buffer (incrementTailFrameBuffer s) = request_buffer s"
  "request_buffer_has_data (incrementTailFrameBuffer s) = request_buffer_has_data s"
  "error_flag (incrementTailFrameBuffer s) = error_flag s"
  by (simp_all add: incrementTailFrameBuffer_eq)

lemmas step_fields = StateDetectBreak_enter_fields setErrorFlag_fields
  incrementHeadFrameBuffer_fields incrementTailFrameBuffer_fields

subsection \<open>The hand-off\<close>

lemma maybeServiceRxRequest_eq:
  assumes "well_formed s"
  shows "maybeServiceRxRequest s =
     Inr (if \<not> request_buffer_has_data s \<and> tail_frame_buffer s \<noteq> head_frame_buffer s
          then s\<lparr>request_buffer := rx_frame_buffers s ! unat (tail_frame_buffer s),
                 tail_frame_buffer := (if tail_frame_buffer s + 1 \<ge> 8 then 0 else tail_frame_buffer s + 1),
                 request_buffer_has_data := True\<rparr>
          else s)"
proof -
  from assms have "unat (tail_frame_buffer s) < length (rx_frame_buffers s)"
    by (simp add: well_formed_def unat_lt8)
  then show ?thesis
    by (simp add: maybeServiceRxRequest_def incrementTailFrameBuffer_eq)
qed

lemma wf_maybeServiceRxRequest:
  assumes "well_formed s"
  shows "\<exists>s'. maybeServiceRxRequest s = Inr s' \<and> well_formed s'"
proof -
  from assms have t: "tail_frame_buffer s < 8" by (simp add: well_formed_def)
  have i: "(if tail_frame_buffer s + 1 \<ge> 8 then 0 else tail_frame_buffer s + 1) < 8"
    using t by (rule incr_lt8)
  from assms t have "unat (tail_frame_buffer s) < length (rx_frame_buffers s)"
    by (simp add: well_formed_def unat_lt8)
  then have "rx_frame_buffers s ! unat (tail_frame_buffer s) \<in> set (rx_frame_buffers s)"
    by simp
  with assms have n: "num_bytes (rx_frame_buffers s ! unat (tail_frame_buffer s)) \<le> 11"
    by (simp add: well_formed_def)
  show ?thesis
  proof (cases "\<not> request_buffer_has_data s \<and> tail_frame_buffer s \<noteq> head_frame_buffer s")
    case True
    with assms i n show ?thesis
      unfolding maybeServiceRxRequest_eq [OF assms]
      by (simp add: well_formed_def)
  next
    case False
    with assms show ?thesis
      unfolding maybeServiceRxRequest_eq [OF assms] by auto
  qed
qed

subsection \<open>The detect-break handler\<close>

lemma slots_update:
  assumes "\<forall>fb \<in> set xs. length (bytes fb) = 11 \<and> num_bytes fb \<le> 11"
    and "length (bytes x) = 11" and "num_bytes x \<le> 11"
  shows "\<forall>fb \<in> set (xs[i := x]). length (bytes fb) = 11 \<and> num_bytes fb \<le> 11"
  using assms set_update_subset_insert [of xs i x] by auto

lemma StateReadData_enter_eq:
  assumes "well_formed s" and "waitForRxLow 255 hw \<noteq> None"
  shows "StateReadData_enter hw s =
     Inr (s\<lparr>state := READ_DATA, bytes_read := 0, bits_read_in_byte := 0,
            rx_frame_buffers := (rx_frame_buffers s)
              [unat (head_frame_buffer s) :=
                 (rx_frame_buffers s ! unat (head_frame_buffer s))\<lparr>num_bytes := 0\<rparr>]\<rparr>)"
proof -
  from assms(1) have "unat (head_frame_buffer s) < length (rx_frame_buffers s)"
    by (simp add: well_formed_def unat_lt8)
  with assms(2) show ?thesis
    by (auto simp: StateReadData_enter_def Let_def)
qed

lemma StateReadData_enter_NoReturn:
  assumes "well_formed s" and "waitForRxLow 255 hw = None"
  shows "StateReadData_enter hw s = Inl NoReturn"
proof -
  from assms(1) have "unat (head_frame_buffer s) < length (rx_frame_buffers s)"
    by (simp add: well_formed_def unat_lt8)
  with assms(2) show ?thesis
    by (simp add: StateReadData_enter_def Let_def)
qed

lemma StateReadData_enter_in_bounds:
  assumes "well_formed s"
  shows "StateReadData_enter hw s \<noteq> Inl OutOfBounds"
proof -
  from assms have "unat (head_frame_buffer s) < length (rx_frame_buffers s)"
    by (simp add: well_formed_def unat_lt8)
  then show ?thesis
    by (simp add: StateReadData_enter_def Let_def split: option.splits)
qed

lemma StateReadData_enter_wf:
  assumes "well_formed s" and "StateReadData_enter hw s = Inr s'"
  shows "well_formed s'"
proof (cases "waitForRxLow 255 hw")
  case None
  with assms StateReadData_enter_NoReturn show ?thesis by simp
next
  case (Some r)
  let ?h = "unat (head_frame_buffer s)"
  let ?x = "(rx_frame_buffers s ! ?h)\<lparr>num_bytes := 0\<rparr>"
  from assms(1) have h: "?h < length (rx_frame_buffers s)"
    by (simp add: well_formed_def unat_lt8)
  then have "rx_frame_buffers s ! ?h \<in> set (rx_frame_buffers s)" by simp
  with assms(1) have "length (bytes ?x) = 11" "num_bytes ?x \<le> 11"
    by (auto simp: well_formed_def)
  with assms(1)
  have "\<forall>fb \<in> set ((rx_frame_buffers s)[?h := ?x]). length (bytes fb) = 11 \<and> num_bytes fb \<le> 11"
    by (intro slots_update) (simp_all add: well_formed_def)
  moreover from Some assms
  have "s' = s\<lparr>state := READ_DATA, bytes_read := 0, bits_read_in_byte := 0,
            rx_frame_buffers := (rx_frame_buffers s)[?h := ?x]\<rparr>"
    by (simp add: StateReadData_enter_eq)
  ultimately show ?thesis using assms(1) h
    by (simp add: well_formed_def)
qed

lemma StateDetectBreak_handle_isr_wf:
  assumes "well_formed s" and "state s = DETECT_BREAK" and "StateDetectBreak_handle_isr inp s = Inr s'"
  shows "well_formed s'"
proof -
  have a: "well_formed (s\<lparr>low_bits_counter := c\<rparr>)" for c
    using assms(1,2) by (simp add: well_formed_def)
  from assms(3) show ?thesis
    using a StateReadData_enter_wf [OF a]
    by (auto simp: StateDetectBreak_handle_isr_def Let_def split: if_splits option.splits)
qed

lemma StateDetectBreak_handle_isr_in_bounds:
  assumes "well_formed s" and "state s = DETECT_BREAK"
  shows "StateDetectBreak_handle_isr inp s \<noteq> Inl OutOfBounds"
proof -
  have a: "well_formed (s\<lparr>low_bits_counter := c\<rparr>)" for c
    using assms(1,2) by (simp add: well_formed_def)
  show ?thesis
    using StateReadData_enter_in_bounds [OF a]
    by (auto simp: StateDetectBreak_handle_isr_def Let_def split: if_splits option.splits)
qed

subsection \<open>The read-data handler\<close>

lemma append_byte_eq:
  assumes "well_formed s" and "state s = READ_DATA"
  shows "append_byte s =
     Inr (s\<lparr>rx_frame_buffers := (rx_frame_buffers s)[unat (head_frame_buffer s) := frame_with_byte s],
            bytes_read := bytes_read s + 1, bits_read_in_byte := 0\<rparr>)"
proof -
  let ?h = "unat (head_frame_buffer s)"
  let ?fb = "rx_frame_buffers s ! ?h"
  from assms(1) have h: "?h < length (rx_frame_buffers s)"
    by (simp add: well_formed_def unat_lt8)
  then have "?fb \<in> set (rx_frame_buffers s)" by simp
  with assms(1) have "length (bytes ?fb) = 11" by (simp add: well_formed_def)
  moreover from assms have "unat (num_bytes ?fb) < 11"
    by (simp add: well_formed_def word_less_nat_alt)
  ultimately show ?thesis using h
    by (simp add: append_byte_def frame_with_byte_def Let_def)
qed

lemma frame_with_byte_wf:
  assumes "well_formed s" and "state s = READ_DATA"
  shows "length (bytes (frame_with_byte s)) = 11" "num_bytes (frame_with_byte s) \<le> 11"
    "num_bytes (frame_with_byte s) = bytes_read s + 1"
proof -
  let ?h = "unat (head_frame_buffer s)"
  let ?fb = "rx_frame_buffers s ! ?h"
  from assms(1) have h: "?h < length (rx_frame_buffers s)"
    by (simp add: well_formed_def unat_lt8)
  then have "?fb \<in> set (rx_frame_buffers s)" by simp
  with assms(1) show "length (bytes (frame_with_byte s)) = 11"
    by (simp add: well_formed_def frame_with_byte_def Let_def)
  from assms have "num_bytes ?fb < 11" by (simp add: well_formed_def)
  then have "num_bytes ?fb + 1 \<le> 11" by (rule inc_le)
  then show "num_bytes (frame_with_byte s) \<le> 11"
    by (simp add: frame_with_byte_def Let_def)
  from assms show "num_bytes (frame_with_byte s) = bytes_read s + 1"
    by (simp add: well_formed_def frame_with_byte_def Let_def)
qed

lemma append_byte_wf:
  assumes "well_formed s" and "state s = READ_DATA" and "append_byte s = Inr s2"
  shows "head_frame_buffer s2 = head_frame_buffer s" "tail_frame_buffer s2 = tail_frame_buffer s"
    "length (rx_frame_buffers s2) = 8"
    "\<forall>fb \<in> set (rx_frame_buffers s2). length (bytes fb) = 11 \<and> num_bytes fb \<le> 11"
    "state s2 = READ_DATA"
    "rx_frame_buffers s2 ! unat (head_frame_buffer s) = frame_with_byte s"
    "bytes_read s2 = num_bytes (frame_with_byte s)"
    "num_bytes (request_buffer s2) \<le> 11"
proof -
  let ?h = "unat (head_frame_buffer s)"
  have eq: "s2 = s\<lparr>rx_frame_buffers := (rx_frame_buffers s)[?h := frame_with_byte s],
                    bytes_read := bytes_read s + 1, bits_read_in_byte := 0\<rparr>"
    using assms append_byte_eq by simp
  from assms(1) have h: "?h < length (rx_frame_buffers s)"
    by (simp add: well_formed_def unat_lt8)
  note f = frame_with_byte_wf [OF assms(1,2)]
  from assms(1) have "\<forall>fb \<in> set (rx_frame_buffers s). length (bytes fb) = 11 \<and> num_bytes fb \<le> 11"
    by (simp add: well_formed_def)
  from slots_update [OF this f(1,2)]
  show "\<forall>fb \<in> set (rx_frame_buffers s2). length (bytes fb) = 11 \<and> num_bytes fb \<le> 11"
    by (simp add: eq)
  show "head_frame_buffer s2 = head_frame_buffer s" "tail_frame_buffer s2 = tail_frame_buffer s"
    "state s2 = READ_DATA"
    using assms(2) by (simp_all add: eq)
  show "length (rx_frame_buffers s2) = 8" using assms(1) by (simp add: eq well_formed_def)
  show "rx_frame_buffers s2 ! unat (head_frame_buffer s) = frame_with_byte s"
    using h by (simp add: eq)
  show "bytes_read s2 = num_bytes (frame_with_byte s)"
    using f(3) by (simp add: eq)
  show "num_bytes (request_buffer s2) \<le> 11"
    using assms(1) by (simp add: eq well_formed_def)
qed

lemma wf_fields_only:
  assumes "well_formed s"
    and "head_frame_buffer s' = head_frame_buffer s" "tail_frame_buffer s' = tail_frame_buffer s"
    and "rx_frame_buffers s' = rx_frame_buffers s" "request_buffer s' = request_buffer s"
    and "state s' = READ_DATA \<Longrightarrow> state s = READ_DATA \<and> bytes_read s' = bytes_read s"
  shows "well_formed s'"
  using assms by (auto simp: well_formed_def)

lemma wf_detect_break:
  assumes "head_frame_buffer s' < 8" "tail_frame_buffer s' < 8" "length (rx_frame_buffers s') = 8"
    "\<forall>fb \<in> set (rx_frame_buffers s'). length (bytes fb) = 11 \<and> num_bytes fb \<le> 11"
    "state s' = DETECT_BREAK" "num_bytes (request_buffer s') \<le> 11"
  shows "well_formed s'"
  using assms by (simp add: well_formed_def)

text \<open>The stop-bit branch once the append and the wait have returned.\<close>

lemma stop_bit_result:
  assumes "bits_read_in_byte s \<noteq> 0" "\<not> bits_read_in_byte s \<le> 8" "is_rx_high inp"
    and "append_byte s = Inr s2"
    and "waitForRxLow (ucast k * 4) (polls inp) = Some (found, rest)"
  shows "StateReadData_handle_isr k inp s =
     Inr (if \<not> found then
            (if bytes_read s2 < 4 then StateDetectBreak_enter (setErrorFlag s2)
             else StateDetectBreak_enter
               (if tail_frame_buffer (incrementHeadFrameBuffer s2) =
                   head_frame_buffer (incrementHeadFrameBuffer s2)
                then incrementTailFrameBuffer (setErrorFlag (incrementHeadFrameBuffer s2))
                else incrementHeadFrameBuffer s2))
          else if kMaxBytes \<le> num_bytes (rx_frame_buffers s2 ! unat (head_frame_buffer s2))
            then StateDetectBreak_enter (setErrorFlag s2)
          else s2)"
  using assms by (simp add: StateReadData_handle_isr_def Let_def)

lemma StateReadData_handle_isr_wf:
  assumes "well_formed s" and "state s = READ_DATA"
    and "StateReadData_handle_isr k inp s = Inr s'"
  shows "well_formed s'"
proof -
  from assms(1) have ht: "head_frame_buffer s < 8" "tail_frame_buffer s < 8"
    by (simp_all add: well_formed_def)
  note inc = incr_lt8 [OF ht(1)] incr_lt8 [OF ht(2)]
  consider (a) "bits_read_in_byte s = 0 \<or> bits_read_in_byte s \<le> 8 \<or> \<not> is_rx_high inp"
    | (b) "bits_read_in_byte s \<noteq> 0" "\<not> bits_read_in_byte s \<le> 8" "is_rx_high inp" by blast
  then show ?thesis
  proof cases
    case a
    with assms(3) have "s' = StateDetectBreak_enter (setErrorFlag s) \<or>
       (head_frame_buffer s' = head_frame_buffer s \<and> tail_frame_buffer s' = tail_frame_buffer s \<and>
        rx_frame_buffers s' = rx_frame_buffers s \<and> state s' = state s \<and> bytes_read s' = bytes_read s \<and>
        request_buffer s' = request_buffer s)"
      by (auto simp: StateReadData_handle_isr_def split: if_splits)
    then show ?thesis
      using assms(1,2) wf_StateDetectBreak_enter [of "setErrorFlag s"] wf_fields_only [of s s']
      by (auto simp: wf_setErrorFlag)
  next
    case b
    from assms(3) b obtain s2 where s2: "append_byte s = Inr s2"
      by (auto simp: StateReadData_handle_isr_def split: sum.splits)
    note f = append_byte_wf [OF assms(1,2) s2]
    from assms(3) b s2 obtain found rest where w: "waitForRxLow (ucast k * 4) (polls inp) = Some (found, rest)"
      by (auto simp: StateReadData_handle_isr_def split: option.splits)
    note r = stop_bit_result [OF b s2 w]
    show ?thesis
    proof (cases "found \<and> \<not> kMaxBytes \<le> num_bytes (frame_with_byte s)")
      case True
      with assms(3) r f have "s' = s2" by simp
      with f True ht show ?thesis
        by (simp add: well_formed_def kMaxBytes_def not_le)
    next
      case False
      have "head_frame_buffer s' < 8 \<and> tail_frame_buffer s' < 8 \<and> state s' = DETECT_BREAK \<and>
        rx_frame_buffers s' = rx_frame_buffers s2 \<and> request_buffer s' = request_buffer s2"
        using assms(3) r False f(1,2,6) inc ht
        by (auto simp: step_fields split: if_splits)
      with f show ?thesis
        by (intro wf_detect_break) simp_all
    qed
  qed
qed

lemma StateReadData_handle_isr_in_bounds:
  assumes "well_formed s" and "state s = READ_DATA"
  shows "StateReadData_handle_isr k inp s \<noteq> Inl OutOfBounds"
proof -
  from append_byte_eq [OF assms] obtain s2 where "append_byte s = Inr s2" by blast
  then show ?thesis
    by (simp add: StateReadData_handle_isr_def Let_def split: option.splits)
qed

subsection \<open>The interrupt routine and runs\<close>

lemma dispatch_wf:
  assumes "well_formed s" and "dispatch k inp s = Inr s1"
  shows "well_formed s1"
proof (cases "state s")
  case DETECT_BREAK
  with assms(2) have "StateDetectBreak_handle_isr inp s = Inr s1" by (simp add: dispatch_def)
  with assms(1) DETECT_BREAK show ?thesis by (rule StateDetectBreak_handle_isr_wf)
next
  case READ_DATA
  with assms(2) have "StateReadData_handle_isr k inp s = Inr s1" by (simp add: dispatch_def)
  with assms(1) READ_DATA show ?thesis by (rule StateReadData_handle_isr_wf)
qed

lemma dispatch_in_bounds:
  assumes "well_formed s"
  shows "dispatch k inp s \<noteq> Inl OutOfBounds"
proof (cases "state s")
  case DETECT_BREAK
  with StateDetectBreak_handle_isr_in_bounds [OF assms DETECT_BREAK, of inp] show ?thesis
    by (simp add: dispatch_def)
next
  case READ_DATA
  with StateReadData_handle_isr_in_bounds [OF assms READ_DATA, of k inp] show ?thesis
    by (simp add: dispatch_def)
qed

lemma isr_wf:
  assumes "well_formed s" and "isr k inp s = Inr s'"
  shows "well_formed s'"
proof -
  from assms(2) obtain s1 where d: "dispatch k inp s = Inr s1" and m: "maybeServiceRxRequest s1 = Inr s'"
    by (auto simp: isr_def split: sum.splits)
  from wf_maybeServiceRxRequest [OF dispatch_wf [OF assms(1) d]] m show ?thesis by auto
qed

lemma isr_in_bounds:
  assumes "well_formed s"
  shows "isr k inp s \<noteq> Inl OutOfBounds"
proof (cases "dispatch k inp s")
  case (Inl f)
  with dispatch_in_bounds [OF assms, of k inp] show ?thesis by (auto simp: isr_def)
next
  case (Inr s1)
  from wf_maybeServiceRxRequest [OF dispatch_wf [OF assms Inr]] Inr show ?thesis
    by (auto simp: isr_def)
qed

lemma exec_wf:
  assumes "well_formed s"
  shows "exec k evs s \<noteq> Inl OutOfBounds \<and> (\<forall>out s'. exec k evs s = Inr (out, s') \<longrightarrow> well_formed s')"
  using assms
proof (induction evs arbitrary: s)
  case Nil
  then show ?case by simp
next
  case (Cons ev evs)
  show ?case
  proof (cases ev)
    case (Tick inp)
    show ?thesis
    proof (cases "isr k inp s")
      case (Inl f)
      with isr_in_bounds [OF Cons.prems, of k inp] Tick show ?thesis by simp
    next
      case (Inr s1)
      from Cons.IH [OF isr_wf [OF Cons.prems Inr]] Inr Tick show ?thesis by simp
    qed
  next
    case (Read buffer)
    obtain got b' s1 where r: "readNextFrame buffer s = (got, b', s1)"
      by (cases "readNextFrame buffer s") auto
    from Cons.IH [OF wf_readNextFrame [OF Cons.prems r]] r Read show ?thesis
      by (auto split: sum.splits)
  next
    case Clear
    from Cons.IH [of "clearErrors s"] Cons.prems Clear show ?thesis
      by (simp add: wf_clearErrors)
  qed
qed

lemma wf_power_on: "well_formed (init power_on)"
  by (simp add: well_formed_def init_def power_on_def initBuffers_def clearErrors_def StateDetectBreak_enter_def)

section \<open>No slot ever holds more than 11 bytes\<close>

lemma StateReadData_enter_count:
  assumes "well_formed s" and "StateReadData_enter hw s = Inr s'"
  shows "num_bytes (rx_frame_buffers s' ! unat (head_frame_buffer s')) = 0"
proof (cases "waitForRxLow 255 hw")
  case None
  with assms StateReadData_enter_NoReturn show ?thesis by simp
next
  case (Some r)
  from assms(1) have "unat (head_frame_buffer s) < length (rx_frame_buffers s)"
    by (simp add: well_formed_def unat_lt8)
  with Some assms show ?thesis
    by (auto simp: StateReadData_enter_eq)
qed

lemma capacity_overflow_resets:
  assumes "well_formed s" and "capacity_overflow k inp s"
  shows "\<exists>s'. isr k inp s = Inr s' \<and> state s' = DETECT_BREAK \<and> error_flag s' \<and>
    low_bits_counter s' = 0"
proof -
  from assms(2) have st: "state s = READ_DATA" and b: "bits_read_in_byte s \<noteq> 0"
    "\<not> bits_read_in_byte s \<le> 8" "is_rx_high inp"
    and full: "kMaxBytes \<le> num_bytes (rx_frame_buffers s ! unat (head_frame_buffer s)) + 1"
    by (auto simp: capacity_overflow_def)
  from assms(2) obtain rest where w: "waitForRxLow (ucast k * 4) (polls inp) = Some (True, rest)"
    by (auto simp: capacity_overflow_def next_start_bit_def)
  from append_byte_eq [OF assms(1) st] obtain s2 where s2: "append_byte s = Inr s2" by blast
  note f = append_byte_wf [OF assms(1) st s2]
  from full have "kMaxBytes \<le> num_bytes (frame_with_byte s)"
    by (simp add: frame_with_byte_def Let_def)
  with stop_bit_result [OF b s2 w] f
  have d: "StateReadData_handle_isr k inp s = Inr (StateDetectBreak_enter (setErrorFlag s2))"
    by simp
  let ?s1 = "StateDetectBreak_enter (setErrorFlag s2)"
  from d st have d': "dispatch k inp s = Inr ?s1" by (simp add: dispatch_def)
  have wf1: "well_formed ?s1" by (rule dispatch_wf [OF assms(1) d'])
  show ?thesis
    using d' maybeServiceRxRequest_eq [OF wf1]
    by (simp add: isr_def step_fields)
qed

text \<open>
  C9. In every state that a run from the initialised decoder reaches, no access has left
  an array, every slot of the ring (and the hand-off slot) has a count of at most 11
  (\<^verbatim>\<open>kMaxBytes\<close>) and its 11 bytes; while data is read the slot at the head index holds
  fewer than 11 bytes, so that the unguarded append of the stop-bit branch stays inside
  the array; a start bit detected after the 11th byte resets the receiver; and entering the
  read-data state sets the count of the slot at the head index to 0.
\<close>

theorem frame_count_within_capacity:
  "exec k evs (init power_on) \<noteq> Inl OutOfBounds \<and>
   (\<forall>out s. exec k evs (init power_on) = Inr (out, s) \<longrightarrow>
      (\<forall>fb \<in> set (rx_frame_buffers s).
          num_bytes fb \<le> kMaxBytes \<and> length (bytes fb) = unat kMaxBytes) \<and>
      num_bytes (request_buffer s) \<le> kMaxBytes \<and>
      (state s = READ_DATA \<longrightarrow>
         num_bytes (rx_frame_buffers s ! unat (head_frame_buffer s)) < kMaxBytes \<and>
         append_byte s \<noteq> Inl OutOfBounds) \<and>
      (\<forall>inp. capacity_overflow k inp s \<longrightarrow>
         (\<exists>s'. isr k inp s = Inr s' \<and> state s' = DETECT_BREAK)) \<and>
      (\<forall>hw s'. StateReadData_enter hw s = Inr s' \<longrightarrow>
         num_bytes (rx_frame_buffers s' ! unat (head_frame_buffer s')) = 0))"
proof (intro conjI allI impI)
  from exec_wf [OF wf_power_on] show "exec k evs (init power_on) \<noteq> Inl OutOfBounds" by blast
next
  fix out s
  assume e: "exec k evs (init power_on) = Inr (out, s)"
  with exec_wf [OF wf_power_on, of k evs] have wf: "well_formed s" by blast
  then show "\<forall>fb \<in> set (rx_frame_buffers s).
      num_bytes fb \<le> kMaxBytes \<and> length (bytes fb) = unat kMaxBytes"
    by (simp add: well_formed_def kMaxBytes_def)
  from wf show "num_bytes (request_buffer s) \<le> kMaxBytes"
    by (simp add: well_formed_def kMaxBytes_def)
  {
    assume st: "state s = READ_DATA"
    with wf show "num_bytes (rx_frame_buffers s ! unat (head_frame_buffer s)) < kMaxBytes"
      by (simp add: well_formed_def kMaxBytes_def)
    from append_byte_eq [OF wf st] show "append_byte s \<noteq> Inl OutOfBounds" by simp
  }
  {
    fix inp assume "capacity_overflow k inp s"
    from capacity_overflow_resets [OF wf this]
    show "\<exists>s'. isr k inp s = Inr s' \<and> state s' = DETECT_BREAK" by blast
  }
  {
    fix hw s' assume "StateReadData_enter hw s = Inr s'"
    with wf show "num_bytes (rx_frame_buffers s' ! unat (head_frame_buffer s')) = 0"
      by (rule StateReadData_enter_count)
  }
qed

theorem frame_count_within_capacity_witness:
  "case exec 26 (replicate 9 (Tick \<lparr>is_rx_high = False, polls = []\<rparr>) @
       [Tick \<lparr>is_rx_high = False, polls = [(False, 0), (True, 1), (True, 2), (False, 3)]\<rparr>])
      (init power_on) of
     Inl f \<Rightarrow> False
   | Inr (out, s) \<Rightarrow> state s = READ_DATA \<and>
      num_bytes (rx_frame_buffers s ! unat (head_frame_buffer s)) < kMaxBytes \<and>
      append_byte s \<noteq> Inl OutOfBounds"
proof -
  let ?evs = "replicate 9 (Tick \<lparr>is_rx_high = False, polls = []\<rparr>) @
       [Tick \<lparr>is_rx_high = False, polls = [(False, 0), (True, 1), (True, 2), (False, 3)]\<rparr>]"
  have "case exec 26 ?evs (init power_on) of Inl f \<Rightarrow> False | Inr (out, s) \<Rightarrow> state s = READ_DATA"
    by code_simp
  then show ?thesis
    using frame_count_within_capacity [of 26 ?evs] by (auto split: sum.splits)
qed

section \<open>The frames between the tail and the head index\<close>

lemma lt8_cases:
  fixes t :: nat
  assumes "t < 8"
  shows "t = 0 \<or> t = 1 \<or> t = 2 \<or> t = 3 \<or> t = 4 \<or> t = 5 \<or> t = 6 \<or> t = 7"
  using assms by linarith

lemma length_ring_slice: "length (ring_slice xs t h) = (8 + h - t) mod 8"
  by (simp add: ring_slice_def)

lemma ring_slice_empty: "t < 8 \<Longrightarrow> ring_slice xs t t = []"
  by (simp add: ring_slice_def)

lemma ring_len_Cons:
  fixes t h :: nat
  assumes "t < 8" "h < 8" "t \<noteq> h"
  shows "(8 + h - t) mod 8 = Suc ((8 + h - (t + 1) mod 8) mod 8)"
  using lt8_cases [OF assms(1)] lt8_cases [OF assms(2)] assms(3)
  by (elim disjE) simp_all

lemma ring_len_snoc:
  fixes t h :: nat
  assumes "t < 8" "h < 8" "(h + 1) mod 8 \<noteq> t"
  shows "(8 + (h + 1) mod 8 - t) mod 8 = Suc ((8 + h - t) mod 8)"
    and "(t + (8 + h - t) mod 8) mod 8 = h"
  using lt8_cases [OF assms(1)] lt8_cases [OF assms(2)] assms(3)
  by (elim disjE; simp)+

lemma ring_idx_neq:
  fixes t h i :: nat
  assumes "t < 8" "h < 8" "i < (8 + h - t) mod 8"
  shows "(t + i) mod 8 \<noteq> h"
proof -
  from assms(3) have "i < 8" by (rule less_trans) simp
  from lt8_cases [OF assms(1)] lt8_cases [OF assms(2)] lt8_cases [OF this] assms(3)
  show ?thesis
    by (elim disjE; simp)
qed

lemma ring_slice_Cons:
  assumes "t < 8" "h < 8" "t \<noteq> h"
  shows "ring_slice xs t h = xs ! t # ring_slice xs ((t + 1) mod 8) h"
proof -
  let ?t' = "(t + 1) mod 8"
  let ?n = "(8 + h - t) mod 8"
  note n = ring_len_Cons [OF assms]
  have "[0..<?n] = 0 # map Suc [0..<(8 + h - ?t') mod 8]"
    unfolding n by (simp add: upt_conv_Cons map_Suc_upt del: upt_Suc)
  moreover have "(?t' + i) mod 8 = (t + Suc i) mod 8" for i
    by (simp add: mod_add_left_eq)
  ultimately show ?thesis using assms(1)
    by (simp add: ring_slice_def comp_def)
qed

lemma ring_slice_snoc:
  assumes "t < 8" "h < 8" "(h + 1) mod 8 \<noteq> t"
  shows "ring_slice xs t ((h + 1) mod 8) = ring_slice xs t h @ [xs ! h]"
  using ring_len_snoc [OF assms]
  by (simp add: ring_slice_def)

lemma ring_slice_update:
  assumes "t < 8" "h < 8"
  shows "ring_slice (xs[h := x]) t h = ring_slice xs t h"
proof -
  have "xs[h := x] ! ((t + i) mod 8) = xs ! ((t + i) mod 8)" if "i < (8 + h - t) mod 8" for i
    using ring_idx_neq [OF assms that] by simp
  then show ?thesis
    by (simp add: ring_slice_def)
qed

lemma ring_slice_overrun:
  assumes "t < 8" "h < 8" "(h + 1) mod 8 = t"
  shows "ring_slice xs ((t + 1) mod 8) t = tl (ring_slice xs t h) @ [xs ! h]"
proof -
  from lt8_cases [OF assms(2)] assms(3) have ne: "t \<noteq> h" "(h + 1) mod 8 \<noteq> (t + 1) mod 8"
    by (elim disjE; simp)+
  have t': "(t + 1) mod 8 < 8" by simp
  from ring_slice_snoc [OF t' assms(2) ne(2)] assms(3)
  have "ring_slice xs ((t + 1) mod 8) t = ring_slice xs ((t + 1) mod 8) h @ [xs ! h]" by simp
  with ring_slice_Cons [OF assms(1,2) ne(1), of xs] show ?thesis by simp
qed

section \<open>What a step does to the frames not yet read\<close>

lemma pending_head_slot:
  assumes "head_frame_buffer s < 8" "tail_frame_buffer s < 8"
    and "head_frame_buffer s' = head_frame_buffer s" "tail_frame_buffer s' = tail_frame_buffer s"
    and "request_buffer_has_data s' = request_buffer_has_data s"
    and "request_buffer s' = request_buffer s"
    and "rx_frame_buffers s' = (rx_frame_buffers s)[unat (head_frame_buffer s) := x]"
  shows "pending s' = pending s"
  using assms ring_slice_update [of "unat (tail_frame_buffer s)" "unat (head_frame_buffer s)"]
  by (simp add: pending_def queue_contents_def unat_lt8)

lemma pending_maybeServiceRxRequest:
  assumes "well_formed s" and "maybeServiceRxRequest s = Inr s'"
  shows "pending s' = pending s"
proof (cases "\<not> request_buffer_has_data s \<and> tail_frame_buffer s \<noteq> head_frame_buffer s")
  case True
  from assms(1) have ht: "head_frame_buffer s < 8" "tail_frame_buffer s < 8"
    by (simp_all add: well_formed_def)
  from True have "unat (tail_frame_buffer s) \<noteq> unat (head_frame_buffer s)"
    by (simp add: word_unat_eq_iff)
  from ring_slice_Cons [OF unat_lt8 [OF ht(2)] unat_lt8 [OF ht(1)] this]
  have "queue_contents s = rx_frame_buffers s ! unat (tail_frame_buffer s) #
      ring_slice (rx_frame_buffers s) ((unat (tail_frame_buffer s) + 1) mod 8) (unat (head_frame_buffer s))"
    by (simp add: queue_contents_def)
  moreover from assms True
  have "s' = s\<lparr>request_buffer := rx_frame_buffers s ! unat (tail_frame_buffer s),
                 tail_frame_buffer := (if tail_frame_buffer s + 1 \<ge> 8 then 0 else tail_frame_buffer s + 1),
                 request_buffer_has_data := True\<rparr>"
    by (simp add: maybeServiceRxRequest_eq)
  ultimately show ?thesis using True unat_incr8 [OF ht(2)]
    by (simp add: pending_def queue_contents_def)
next
  case False
  with assms have "s' = s" by (auto simp: maybeServiceRxRequest_eq)
  then show ?thesis by simp
qed

lemma append_byte_fields:
  assumes "well_formed s" and "state s = READ_DATA" and "append_byte s = Inr s2"
  shows "request_buffer_has_data s2 = request_buffer_has_data s"
    "request_buffer s2 = request_buffer s" "error_flag s2 = error_flag s"
    "rx_frame_buffers s2 = (rx_frame_buffers s)[unat (head_frame_buffer s) := frame_with_byte s]"
    "bytes_read s2 = bytes_read s + 1"
    "low_bits_counter s2 = low_bits_counter s"
  using assms(3) unfolding append_byte_eq [OF assms(1,2)] by auto

text \<open>An interrupt that completes no frame changes the slot at the head index at most.\<close>

lemma StateDetectBreak_handle_isr_quiet:
  assumes "well_formed s" and "state s = DETECT_BREAK"
    and "StateDetectBreak_handle_isr inp s = Inr s1"
  shows "head_frame_buffer s1 = head_frame_buffer s \<and> tail_frame_buffer s1 = tail_frame_buffer s \<and>
    request_buffer_has_data s1 = request_buffer_has_data s \<and> request_buffer s1 = request_buffer s \<and>
    error_flag s1 = error_flag s \<and>
    (\<exists>x. rx_frame_buffers s1 = (rx_frame_buffers s)[unat (head_frame_buffer s) := x])"
proof -
  have a: "well_formed (s\<lparr>low_bits_counter := c\<rparr>)" for c
    using assms(1,2) by (simp add: well_formed_def)
  have id: "\<exists>x. rx_frame_buffers s = (rx_frame_buffers s)[unat (head_frame_buffer s) := x]"
    by (rule exI [of _ "rx_frame_buffers s ! unat (head_frame_buffer s)"]) simp
  consider (same) c where "s1 = s\<lparr>low_bits_counter := c\<rparr>"
    | (enter) hw where "StateReadData_enter hw (s\<lparr>low_bits_counter := low_bits_counter s + 1\<rparr>) = Inr s1"
    using assms(3)
    by (auto simp: StateDetectBreak_handle_isr_def Let_def split: if_splits option.splits)
  then show ?thesis
  proof cases
    case same
    with id show ?thesis by simp
  next
    case enter
    have w: "waitForRxLow 255 hw \<noteq> None"
    proof
      assume "waitForRxLow 255 hw = None"
      from StateReadData_enter_NoReturn [OF a this] enter show False by simp
    qed
    from enter show ?thesis
      unfolding StateReadData_enter_eq [OF a w] by auto
  qed
qed

lemma stop_bit_position: "8 < b \<longleftrightarrow> b \<noteq> 0 \<and> \<not> b \<le> 8" for b :: uint8
  by (auto simp: not_le)

lemma StateReadData_handle_isr_quiet:
  assumes "well_formed s" and "state s = READ_DATA" and "\<not> frame_completes k inp s"
    and "StateReadData_handle_isr k inp s = Inr s1"
  shows "head_frame_buffer s1 = head_frame_buffer s \<and> tail_frame_buffer s1 = tail_frame_buffer s \<and>
    request_buffer_has_data s1 = request_buffer_has_data s \<and> request_buffer s1 = request_buffer s \<and>
    (\<exists>x. rx_frame_buffers s1 = (rx_frame_buffers s)[unat (head_frame_buffer s) := x])"
proof -
  have id: "\<exists>x. rx_frame_buffers s = (rx_frame_buffers s)[unat (head_frame_buffer s) := x]"
    by (rule exI [of _ "rx_frame_buffers s ! unat (head_frame_buffer s)"]) simp
  consider (a) "bits_read_in_byte s = 0 \<or> bits_read_in_byte s \<le> 8 \<or> \<not> is_rx_high inp"
    | (b) "bits_read_in_byte s \<noteq> 0" "\<not> bits_read_in_byte s \<le> 8" "is_rx_high inp" by blast
  then show ?thesis
  proof cases
    case a
    with assms(4) have "head_frame_buffer s1 = head_frame_buffer s \<and>
        tail_frame_buffer s1 = tail_frame_buffer s \<and>
        request_buffer_has_data s1 = request_buffer_has_data s \<and>
        request_buffer s1 = request_buffer s \<and> rx_frame_buffers s1 = rx_frame_buffers s"
      by (auto simp: StateReadData_handle_isr_def step_fields split: if_splits)
    with id show ?thesis by simp
  next
    case b
    from append_byte_eq [OF assms(1,2)] obtain s2 where s2: "append_byte s = Inr s2" by blast
    note f = append_byte_wf [OF assms(1,2) s2] append_byte_fields [OF assms(1,2) s2]
    from assms(4) b s2 obtain found rest where w: "waitForRxLow (ucast k * 4) (polls inp) = Some (found, rest)"
      by (auto simp: StateReadData_handle_isr_def split: option.splits)
    from assms(2,3) b w have nc: "found \<or> bytes_read s + 1 < 4"
      by (auto simp: frame_completes_def frame_ends_def next_start_bit_def stop_bit_position)
    have x: "\<exists>x. rx_frame_buffers s2 = (rx_frame_buffers s)[unat (head_frame_buffer s) := x]"
      using f by blast
    have br: "bytes_read s2 = bytes_read s + 1" by (rule append_byte_fields [OF assms(1,2) s2])
    from assms(4) nc have "s1 = s2 \<or> s1 = StateDetectBreak_enter (setErrorFlag s2)"
      unfolding stop_bit_result [OF b s2 w] br
      by (auto split: if_splits)
    then have "head_frame_buffer s1 = head_frame_buffer s2 \<and>
        tail_frame_buffer s1 = tail_frame_buffer s2 \<and>
        request_buffer_has_data s1 = request_buffer_has_data s2 \<and>
        request_buffer s1 = request_buffer s2 \<and> rx_frame_buffers s1 = rx_frame_buffers s2"
      by (auto simp: step_fields)
    with f x show ?thesis by simp
  qed
qed

text \<open>An interrupt that completes a frame moves the head index; on an overrun, the tail index too.\<close>

lemma StateReadData_handle_isr_completes:
  assumes "well_formed s" and "frame_completes k inp s"
  shows "\<exists>s1. StateReadData_handle_isr k inp s = Inr s1 \<and> state s1 = DETECT_BREAK \<and>
    low_bits_counter s1 = 0 \<and>
    rx_frame_buffers s1 = (rx_frame_buffers s)[unat (head_frame_buffer s) := frame_with_byte s] \<and>
    head_frame_buffer s1 = head_frame_buffer (incrementHeadFrameBuffer s) \<and>
    request_buffer_has_data s1 = request_buffer_has_data s \<and> request_buffer s1 = request_buffer s \<and>
    (if tail_frame_buffer s = head_frame_buffer (incrementHeadFrameBuffer s)
     then tail_frame_buffer s1 = tail_frame_buffer (incrementTailFrameBuffer s) \<and> error_flag s1
     else tail_frame_buffer s1 = tail_frame_buffer s \<and> error_flag s1 = error_flag s)"
proof -
  from assms(2) have st: "state s = READ_DATA" and b: "bits_read_in_byte s \<noteq> 0"
    "\<not> bits_read_in_byte s \<le> 8" "is_rx_high inp" and n: "\<not> bytes_read s + 1 < 4"
    by (auto simp: frame_completes_def frame_ends_def stop_bit_position)
  from assms(2) obtain rest where w: "waitForRxLow (ucast k * 4) (polls inp) = Some (False, rest)"
    by (auto simp: frame_completes_def frame_ends_def next_start_bit_def)
  from append_byte_eq [OF assms(1) st] obtain s2 where s2: "append_byte s = Inr s2" by blast
  note f = append_byte_wf [OF assms(1) st s2] append_byte_fields [OF assms(1) st s2]
  have br: "bytes_read s2 = bytes_read s + 1" by (rule append_byte_fields [OF assms(1) st s2])
  let ?s1 = "StateDetectBreak_enter
               (if tail_frame_buffer (incrementHeadFrameBuffer s2) =
                   head_frame_buffer (incrementHeadFrameBuffer s2)
                then incrementTailFrameBuffer (setErrorFlag (incrementHeadFrameBuffer s2))
                else incrementHeadFrameBuffer s2)"
  from n have r: "StateReadData_handle_isr k inp s = Inr ?s1"
    unfolding stop_bit_result [OF b s2 w] br by simp
  show ?thesis
    unfolding r using f
    by (simp add: step_fields)
qed

lemma isr_quiet:
  assumes "well_formed s" and "\<not> frame_completes k inp s" and "isr k inp s = Inr s'"
  shows "pending s' = pending s" "head_frame_buffer s' = head_frame_buffer s"
proof -
  from assms(3) obtain s1 where d: "dispatch k inp s = Inr s1" and m: "maybeServiceRxRequest s1 = Inr s'"
    by (auto simp: isr_def split: sum.splits)
  from assms(1) have ht: "head_frame_buffer s < 8" "tail_frame_buffer s < 8"
    by (simp_all add: well_formed_def)
  have q: "head_frame_buffer s1 = head_frame_buffer s \<and> tail_frame_buffer s1 = tail_frame_buffer s \<and>
    request_buffer_has_data s1 = request_buffer_has_data s \<and> request_buffer s1 = request_buffer s \<and>
    (\<exists>x. rx_frame_buffers s1 = (rx_frame_buffers s)[unat (head_frame_buffer s) := x])"
  proof (cases "state s")
    case DETECT_BREAK
    with d have "StateDetectBreak_handle_isr inp s = Inr s1" by (simp add: dispatch_def)
    from StateDetectBreak_handle_isr_quiet [OF assms(1) DETECT_BREAK this] show ?thesis by blast
  next
    case READ_DATA
    with d have "StateReadData_handle_isr k inp s = Inr s1" by (simp add: dispatch_def)
    from StateReadData_handle_isr_quiet [OF assms(1) READ_DATA assms(2) this] show ?thesis .
  qed
  then obtain x where "rx_frame_buffers s1 = (rx_frame_buffers s)[unat (head_frame_buffer s) := x]"
    by blast
  with q ht have "pending s1 = pending s" by (intro pending_head_slot) simp_all
  with pending_maybeServiceRxRequest [OF dispatch_wf [OF assms(1) d] m]
  show "pending s' = pending s" by simp
  from m q show "head_frame_buffer s' = head_frame_buffer s"
    unfolding maybeServiceRxRequest_eq [OF dispatch_wf [OF assms(1) d]]
    by (auto split: if_splits)
qed

lemma isr_completes:
  assumes "well_formed s" and "frame_completes k inp s"
  shows "\<exists>s'. isr k inp s = Inr s' \<and> state s' = DETECT_BREAK \<and> low_bits_counter s' = 0 \<and>
    head_frame_buffer s' = head_frame_buffer (incrementHeadFrameBuffer s) \<and>
    (if tail_frame_buffer s = head_frame_buffer (incrementHeadFrameBuffer s)
     then error_flag s' \<and>
       pending s' = (if request_buffer_has_data s then [request_buffer s] else []) @
                    tl (queue_contents s) @ [frame_with_byte s]
     else error_flag s' = error_flag s \<and> pending s' = pending s @ [frame_with_byte s])"
proof -
  from StateReadData_handle_isr_completes [OF assms] obtain s1 where
    h: "StateReadData_handle_isr k inp s = Inr s1" and st1: "state s1 = DETECT_BREAK"
    and lb1: "low_bits_counter s1 = 0"
    and rx1: "rx_frame_buffers s1 = (rx_frame_buffers s)[unat (head_frame_buffer s) := frame_with_byte s]"
    and h1: "head_frame_buffer s1 = head_frame_buffer (incrementHeadFrameBuffer s)"
    and rb1: "request_buffer_has_data s1 = request_buffer_has_data s" "request_buffer s1 = request_buffer s"
    and t1: "if tail_frame_buffer s = head_frame_buffer (incrementHeadFrameBuffer s)
     then tail_frame_buffer s1 = tail_frame_buffer (incrementTailFrameBuffer s) \<and> error_flag s1
     else tail_frame_buffer s1 = tail_frame_buffer s \<and> error_flag s1 = error_flag s"
    by blast
  from assms(2) have st: "state s = READ_DATA" by (simp add: frame_completes_def frame_ends_def)
  with h have d: "dispatch k inp s = Inr s1" by (simp add: dispatch_def)
  note wf1 = dispatch_wf [OF assms(1) d]
  from wf_maybeServiceRxRequest [OF wf1] obtain s' where m: "maybeServiceRxRequest s1 = Inr s'" by blast
  from assms(1) have ht: "head_frame_buffer s < 8" "tail_frame_buffer s < 8"
    and len: "length (rx_frame_buffers s) = 8"
    by (simp_all add: well_formed_def)
  let ?h = "unat (head_frame_buffer s)" and ?t = "unat (tail_frame_buffer s)"
  let ?rx' = "(rx_frame_buffers s)[?h := frame_with_byte s]"
  note lt = unat_lt8 [OF ht(1)] unat_lt8 [OF ht(2)]
  have nth: "?rx' ! ?h = frame_with_byte s" using lt len by simp
  have uh: "unat (head_frame_buffer (incrementHeadFrameBuffer s)) = (?h + 1) mod 8"
    using unat_incr8 [OF ht(1)] by (simp add: step_fields)
  have ut: "unat (tail_frame_buffer (incrementTailFrameBuffer s)) = (?t + 1) mod 8"
    using unat_incr8 [OF ht(2)] by (simp add: step_fields)
  have p1: "if tail_frame_buffer s = head_frame_buffer (incrementHeadFrameBuffer s)
     then pending s1 = (if request_buffer_has_data s then [request_buffer s] else []) @
                    tl (queue_contents s) @ [frame_with_byte s]
     else pending s1 = pending s @ [frame_with_byte s]"
  proof (cases "tail_frame_buffer s = head_frame_buffer (incrementHeadFrameBuffer s)")
    case True
    then have e: "(?h + 1) mod 8 = ?t" using uh by simp
    from True t1 have "tail_frame_buffer s1 = tail_frame_buffer (incrementTailFrameBuffer s)" by simp
    then have "queue_contents s1 = ring_slice ?rx' ((?t + 1) mod 8) ?t"
      using rx1 h1 True ut by (simp add: queue_contents_def)
    also have "\<dots> = tl (ring_slice ?rx' ?t ?h) @ [?rx' ! ?h]"
      by (rule ring_slice_overrun [OF lt(2) lt(1) e])
    also have "\<dots> = tl (queue_contents s) @ [frame_with_byte s]"
      using ring_slice_update [OF lt(2) lt(1), of "rx_frame_buffers s" "frame_with_byte s"] nth
      by (simp add: queue_contents_def)
    finally show ?thesis using True rb1 by (simp add: pending_def)
  next
    case False
    then have e: "(?h + 1) mod 8 \<noteq> ?t" using uh by (simp add: word_unat_eq_iff)
    from False t1 have "tail_frame_buffer s1 = tail_frame_buffer s" by simp
    then have "queue_contents s1 = ring_slice ?rx' ?t ((?h + 1) mod 8)"
      using rx1 h1 uh by (simp add: queue_contents_def)
    also have "\<dots> = ring_slice ?rx' ?t ?h @ [?rx' ! ?h]"
      by (rule ring_slice_snoc [OF lt(2) lt(1) e])
    also have "\<dots> = queue_contents s @ [frame_with_byte s]"
      using ring_slice_update [OF lt(2) lt(1), of "rx_frame_buffers s" "frame_with_byte s"] nth
      by (simp add: queue_contents_def)
    finally show ?thesis using False rb1 by (simp add: pending_def)
  qed
  have i: "isr k inp s = Inr s'" using d m by (simp add: isr_def)
  have "state s' = DETECT_BREAK \<and> low_bits_counter s' = 0 \<and>
      head_frame_buffer s' = head_frame_buffer s1 \<and> error_flag s' = error_flag s1"
    using m st1 lb1 unfolding maybeServiceRxRequest_eq [OF wf1]
    by (auto split: if_splits)
  then show ?thesis
    using i h1 t1 p1 pending_maybeServiceRxRequest [OF wf1 m]
    by (auto split: if_splits)
qed

section \<open>Frames reach the main program in the order they were queued\<close>

lemma readNextFrame_pending:
  assumes "readNextFrame buffer s = (got, buffer', s1)"
  shows "(if got then [buffer'] else []) @ pending s1 = pending s"
  using assms by (auto simp: readNextFrame_def pending_def queue_contents_def split: if_splits)

lemma quiet_exec:
  assumes "well_formed s" and "quiet k evs s" and "exec k evs s = Inr (out, s')"
  shows "out @ pending s' = pending s"
  using assms
proof (induction evs arbitrary: s out)
  case Nil
  then show ?case by simp
next
  case (Cons ev evs)
  show ?case
  proof (cases ev)
    case (Tick inp)
    with Cons.prems(3) obtain s1 where i: "isr k inp s = Inr s1" and e: "exec k evs s1 = Inr (out, s')"
      by (auto split: sum.splits)
    from Cons.prems(2) Tick i have nc: "\<not> frame_completes k inp s" and q: "quiet k evs s1"
      by simp_all
    from Cons.IH [OF isr_wf [OF Cons.prems(1) i] q e] isr_quiet(1) [OF Cons.prems(1) nc i]
    show ?thesis by simp
  next
    case (Read buffer)
    obtain got b' s1 where r: "readNextFrame buffer s = (got, b', s1)"
      by (cases "readNextFrame buffer s") auto
    with Cons.prems(3) Read obtain out1 where e: "exec k evs s1 = Inr (out1, s')"
      and o: "out = (if got then [b'] else []) @ out1"
      by (auto split: sum.splits)
    from Cons.prems(2) Read r have q: "quiet k evs s1" by simp
    from Cons.IH [OF wf_readNextFrame [OF Cons.prems(1) r] q e] readNextFrame_pending [OF r] o
    show ?thesis by auto
  next
    case Clear
    with Cons.prems have "quiet k evs (clearErrors s)" "exec k evs (clearErrors s) = Inr (out, s')"
      by simp_all
    from Cons.IH [OF _ this] Cons.prems(1) have "out @ pending s' = pending (clearErrors s)"
      by (simp add: wf_clearErrors)
    then show ?thesis by (simp add: pending_def queue_contents_def clearErrors_def)
  qed
qed

lemma idle_tick:
  assumes "well_formed s" and "state s = DETECT_BREAK"
  shows "\<exists>s'. isr k \<lparr>is_rx_high = True, polls = []\<rparr> s = Inr s' \<and> well_formed s' \<and>
    state s' = DETECT_BREAK \<and> pending s' = pending s \<and>
    (request_buffer_has_data s' \<or> tail_frame_buffer s' = head_frame_buffer s')"
proof -
  let ?inp = "\<lparr>is_rx_high = True, polls = []\<rparr>"
  let ?s1 = "s\<lparr>low_bits_counter := 0\<rparr>"
  from assms(2) have d: "dispatch k ?inp s = Inr ?s1"
    by (simp add: dispatch_def StateDetectBreak_handle_isr_def)
  note wf1 = dispatch_wf [OF assms(1) d]
  from wf_maybeServiceRxRequest [OF wf1] obtain s' where m: "maybeServiceRxRequest ?s1 = Inr s'"
    and wf': "well_formed s'" by blast
  have i: "isr k ?inp s = Inr s'" using d m by (simp add: isr_def)
  have nc: "\<not> frame_completes k ?inp s" using assms(2)
    by (simp add: frame_completes_def frame_ends_def)
  from m assms(2) have "state s' = DETECT_BREAK \<and>
      (request_buffer_has_data s' \<or> tail_frame_buffer s' = head_frame_buffer s')"
    unfolding maybeServiceRxRequest_eq [OF wf1] by (auto split: if_splits)
  with i wf' isr_quiet(1) [OF assms(1) nc i] show ?thesis by simp
qed

lemma drain_Suc:
  "drain (Suc n) buffer = Read buffer # Tick \<lparr>is_rx_high = True, polls = []\<rparr> # drain n buffer"
  by (simp add: drain_def)

lemma drain_delivers:
  assumes "well_formed s" and "state s = DETECT_BREAK"
    and "request_buffer_has_data s \<or> tail_frame_buffer s = head_frame_buffer s"
  shows "\<exists>s'. exec k (drain n buffer) s = Inr (take n (pending s), s') \<and>
    pending s' = drop n (pending s)"
  using assms
proof (induction n arbitrary: s)
  case 0
  then show ?case by (simp add: drain_def)
next
  case (Suc n)
  obtain got b' s1 where r: "readNextFrame buffer s = (got, b', s1)"
    by (cases "readNextFrame buffer s") auto
  note wf1 = wf_readNextFrame [OF Suc.prems(1) r]
  from r Suc.prems(2) have st1: "state s1 = DETECT_BREAK"
    by (auto simp: readNextFrame_def split: if_splits)
  from idle_tick [OF wf1 st1, of k] obtain s2 where
    i: "isr k \<lparr>is_rx_high = True, polls = []\<rparr> s1 = Inr s2" and wf2: "well_formed s2"
    and st2: "state s2 = DETECT_BREAK" and p2: "pending s2 = pending s1"
    and sat: "request_buffer_has_data s2 \<or> tail_frame_buffer s2 = head_frame_buffer s2"
    by blast
  from Suc.IH [OF wf2 st2 sat] obtain s' where
    e: "exec k (drain n buffer) s2 = Inr (take n (pending s2), s')"
    and p': "pending s' = drop n (pending s2)" by blast
  from Suc.prems(1) have "tail_frame_buffer s = head_frame_buffer s \<Longrightarrow> queue_contents s = []"
    by (simp add: queue_contents_def well_formed_def unat_lt8 ring_slice_empty)
  with Suc.prems(3) r have "pending s = (if got then [b'] else []) @ pending s1 \<and>
      (\<not> got \<longrightarrow> pending s = [])"
    by (auto simp: readNextFrame_def pending_def queue_contents_def split: if_splits)
  with r i e p' p2 show ?case
    by (auto simp: drain_Suc)
qed

section \<open>Completed frames, overruns and short frames\<close>

lemma isr_after_dispatch:
  assumes "well_formed s" and "dispatch k inp s = Inr s1"
  shows "\<exists>s'. isr k inp s = Inr s' \<and> state s' = state s1 \<and> error_flag s' = error_flag s1 \<and>
    head_frame_buffer s' = head_frame_buffer s1 \<and> low_bits_counter s' = low_bits_counter s1 \<and>
    rx_frame_buffers s' = rx_frame_buffers s1 \<and>
    (request_buffer_has_data s' \<or> tail_frame_buffer s' = head_frame_buffer s') \<and>
    (request_buffer_has_data s1 \<longrightarrow> s' = s1)"
proof -
  note wf1 = dispatch_wf [OF assms]
  show ?thesis
    by (simp add: isr_def assms(2) maybeServiceRxRequest_eq [OF wf1])
qed

lemma queue_full:
  assumes "well_formed s"
  shows "length (queue_contents s) = 7 \<longleftrightarrow>
    tail_frame_buffer s = head_frame_buffer (incrementHeadFrameBuffer s)"
proof -
  from assms have ht: "head_frame_buffer s < 8" "tail_frame_buffer s < 8"
    by (simp_all add: well_formed_def)
  let ?h = "unat (head_frame_buffer s)" and ?t = "unat (tail_frame_buffer s)"
  have "(8 + ?h - ?t) mod 8 = 7 \<longleftrightarrow> ?t = (?h + 1) mod 8"
    using lt8_cases [OF unat_lt8 [OF ht(1)]] lt8_cases [OF unat_lt8 [OF ht(2)]]
    by (elim disjE; simp)
  then show ?thesis
    using unat_incr8 [OF ht(1)]
    by (simp add: queue_contents_def length_ring_slice step_fields word_unat_eq_iff)
qed

lemma isr_too_short:
  assumes "well_formed s" and "frame_too_short k inp s"
  shows "\<exists>s'. isr k inp s = Inr s' \<and> state s' = DETECT_BREAK \<and> error_flag s' \<and>
    low_bits_counter s' = 0"
proof -
  from assms(2) have st: "state s = READ_DATA" and b: "bits_read_in_byte s \<noteq> 0"
    "\<not> bits_read_in_byte s \<le> 8" "is_rx_high inp" and n: "bytes_read s + 1 < 4"
    by (auto simp: frame_too_short_def frame_ends_def stop_bit_position)
  from assms(2) obtain rest where w: "waitForRxLow (ucast k * 4) (polls inp) = Some (False, rest)"
    by (auto simp: frame_too_short_def frame_ends_def next_start_bit_def)
  from append_byte_eq [OF assms(1) st] obtain s2 where s2: "append_byte s = Inr s2" by blast
  have br: "bytes_read s2 = bytes_read s + 1" by (rule append_byte_fields [OF assms(1) st s2])
  from n have "StateReadData_handle_isr k inp s = Inr (StateDetectBreak_enter (setErrorFlag s2))"
    unfolding stop_bit_result [OF b s2 w] br by simp
  with st have "dispatch k inp s = Inr (StateDetectBreak_enter (setErrorFlag s2))"
    by (simp add: dispatch_def)
  from isr_after_dispatch [OF assms(1) this] show ?thesis
    by (auto simp: step_fields)
qed

lemma frame_with_byte_count:
  assumes "well_formed s" and "frame_completes k inp s"
  shows "4 \<le> num_bytes (frame_with_byte s)"
proof -
  from assms(2) have st: "state s = READ_DATA" and n: "\<not> bytes_read s + 1 < 4"
    by (auto simp: frame_completes_def frame_ends_def)
  from frame_with_byte_wf(3) [OF assms(1) st] n show ?thesis by (simp add: not_less)
qed

text \<open>
  C3. A frame that completes with at least 4 bytes is placed behind the frames not yet
  read (without the oldest of the ring, when the ring was full). Whatever the main program
  and the interrupt do next, as long as no other frame completes, the frames returned by
  \<^verbatim>\<open>readNextFrame\<close> followed by the frames still waiting are the earlier frames and then
  this one, once; reading as many times as there are frames returns them all, this one
  last. When nothing was waiting, the first \<^verbatim>\<open>readNextFrame\<close> after the interrupt returns
  the frame, and every later call returns nothing until another frame completes.
\<close>

theorem completed_frame_read_once:
  assumes "well_formed s" and "frame_completes k inp s"
  shows "\<exists>s'. isr k inp s = Inr s' \<and> 4 \<le> num_bytes (frame_with_byte s) \<and>
    pending s' = earlier_frames s @ [frame_with_byte s] \<and>
    (\<forall>evs out s''. quiet k evs s' \<and> exec k evs s' = Inr (out, s'') \<longrightarrow>
       out @ pending s'' = earlier_frames s @ [frame_with_byte s]) \<and>
    (\<exists>s''. exec k (drain (Suc (length (earlier_frames s))) buffer) s' =
              Inr (earlier_frames s @ [frame_with_byte s], s'') \<and> pending s'' = []) \<and>
    (earlier_frames s = [] \<longrightarrow>
       (\<exists>s1. readNextFrame buffer s' = (True, frame_with_byte s, s1) \<and>
          (\<forall>evs out s''. quiet k evs s1 \<and> exec k evs s1 = Inr (out, s'') \<longrightarrow> out = [])))"
proof -
  have full: "length (queue_contents s) = 7 \<longleftrightarrow>
      tail_frame_buffer s = head_frame_buffer (incrementHeadFrameBuffer s)"
    by (rule queue_full [OF assms(1)])
  from isr_completes [OF assms(1,2)] obtain s' where i: "isr k inp s = Inr s'"
    and st: "state s' = DETECT_BREAK" and p: "pending s' = earlier_frames s @ [frame_with_byte s]"
    unfolding earlier_frames_def full by (auto split: if_splits)
  note wf' = isr_wf [OF assms(1) i]
  from assms(2) have "state s = READ_DATA" by (simp add: frame_completes_def frame_ends_def)
  then obtain s1 where d: "dispatch k inp s = Inr s1"
    using StateReadData_handle_isr_completes [OF assms(1,2)] by (auto simp: dispatch_def)
  from isr_after_dispatch [OF assms(1) d] i
  have sat: "request_buffer_has_data s' \<or> tail_frame_buffer s' = head_frame_buffer s'" by auto
  have q: "out @ pending s'' = earlier_frames s @ [frame_with_byte s]"
    if "quiet k evs s'" "exec k evs s' = Inr (out, s'')" for evs out s''
    using quiet_exec [OF wf' that] p by simp
  from drain_delivers [OF wf' st sat, of k "Suc (length (earlier_frames s))" buffer] p
  have dr: "\<exists>s''. exec k (drain (Suc (length (earlier_frames s))) buffer) s' =
              Inr (earlier_frames s @ [frame_with_byte s], s'') \<and> pending s'' = []"
    by simp
  have e: "\<exists>s1. readNextFrame buffer s' = (True, frame_with_byte s, s1) \<and>
          (\<forall>evs out s''. quiet k evs s1 \<and> exec k evs s1 = Inr (out, s'') \<longrightarrow> out = [])"
    if "earlier_frames s = []"
  proof -
    from that p have p1: "pending s' = [frame_with_byte s]" by simp
    obtain got b' s1 where r: "readNextFrame buffer s' = (got, b', s1)"
      by (cases "readNextFrame buffer s'") auto
    from sat wf' have "\<not> request_buffer_has_data s' \<Longrightarrow> pending s' = []"
      by (auto simp: pending_def queue_contents_def ring_slice_empty well_formed_def unat_lt8)
    with p1 have "request_buffer_has_data s'" by auto
    with r have got: "got" by (auto simp: readNextFrame_def)
    with readNextFrame_pending [OF r] p1 have b': "b' = frame_with_byte s" and p2: "pending s1 = []"
      by simp_all
    have "out = []" if "quiet k evs s1" "exec k evs s1 = Inr (out, s'')" for evs out s''
      using quiet_exec [OF wf_readNextFrame [OF wf' r] that] p2 by simp
    then have "\<forall>evs out s''. quiet k evs s1 \<and> exec k evs s1 = Inr (out, s'') \<longrightarrow> out = []"
      by blast
    with r got b' show ?thesis by simp
  qed
  from i frame_with_byte_count [OF assms(1,2)] p q dr e show ?thesis by blast
qed

theorem completed_frame_read_once_witness:
  "well_formed ((init power_on)\<lparr>state := READ_DATA, bytes_read := 3, bits_read_in_byte := 9,
       byte_buffer := 0xA5,
       rx_frame_buffers := (rx_frame_buffers power_on)
         [0 := \<lparr>num_bytes = 3, bytes = [0x55, 1, 2, 0, 0, 0, 0, 0, 0, 0, 0]\<rparr>]\<rparr>) \<and>
   frame_completes 26 \<lparr>is_rx_high = True, polls = [(True, 0), (True, 200)]\<rparr>
     ((init power_on)\<lparr>state := READ_DATA, bytes_read := 3, bits_read_in_byte := 9,
       byte_buffer := 0xA5,
       rx_frame_buffers := (rx_frame_buffers power_on)
         [0 := \<lparr>num_bytes = 3, bytes = [0x55, 1, 2, 0, 0, 0, 0, 0, 0, 0, 0]\<rparr>]\<rparr>) \<and>
   (\<exists>s' s1. isr 26 \<lparr>is_rx_high = True, polls = [(True, 0), (True, 200)]\<rparr>
     ((init power_on)\<lparr>state := READ_DATA, bytes_read := 3, bits_read_in_byte := 9,
       byte_buffer := 0xA5,
       rx_frame_buffers := (rx_frame_buffers power_on)
         [0 := \<lparr>num_bytes = 3, bytes = [0x55, 1, 2, 0, 0, 0, 0, 0, 0, 0, 0]\<rparr>]\<rparr>) = Inr s' \<and>
     pending s' = [\<lparr>num_bytes = 4, bytes = [0x55, 1, 2, 0xA5, 0, 0, 0, 0, 0, 0, 0]\<rparr>] \<and>
     readNextFrame \<lparr>num_bytes = 0, bytes = []\<rparr> s' =
       (True, \<lparr>num_bytes = 4, bytes = [0x55, 1, 2, 0xA5, 0, 0, 0, 0, 0, 0, 0]\<rparr>, s1))"
proof -
  let ?s = "(init power_on)\<lparr>state := READ_DATA, bytes_read := 3, bits_read_in_byte := 9,
       byte_buffer := 0xA5,
       rx_frame_buffers := (rx_frame_buffers power_on)
         [0 := \<lparr>num_bytes = 3, bytes = [0x55, 1, 2, 0, 0, 0, 0, 0, 0, 0, 0]\<rparr>]\<rparr>"
  let ?inp = "\<lparr>is_rx_high = True, polls = [(True, 0), (True, 200)]\<rparr>"
  have wf: "well_formed ?s" by code_simp
  have fc: "frame_completes 26 ?inp ?s" by code_simp
  have p: "earlier_frames ?s = []" by code_simp
  have f: "frame_with_byte ?s = \<lparr>num_bytes = 4, bytes = [0x55, 1, 2, 0xA5, 0, 0, 0, 0, 0, 0, 0]\<rparr>"
    by code_simp
  from completed_frame_read_once [OF wf fc, of "\<lparr>num_bytes = 0, bytes = []\<rparr>"] p f wf fc
  show ?thesis by auto
qed

text \<open>
  C4. With the hand-off slot full and seven frames in the ring (eight frames unread), the
  interrupt that completes a ninth frame moves the head index onto the tail index, sets
  the error flag and moves the tail index one further, modulo 8. Of the frames not yet
  read exactly the oldest one in the ring is gone: the frame in the hand-off slot, the
  other six and the new frame remain, in this order, and eight reads return them so.
\<close>

theorem ninth_frame_evicts_oldest_queued:
  assumes "well_formed s" and "frame_completes k inp s"
    and "request_buffer_has_data s" and "length (queue_contents s) = 7"
  shows "\<exists>s'. isr k inp s = Inr s' \<and> error_flag s' \<and> state s' = DETECT_BREAK \<and>
    head_frame_buffer s' = tail_frame_buffer s \<and>
    unat (tail_frame_buffer s') = (unat (tail_frame_buffer s) + 1) mod 8 \<and>
    pending s = request_buffer s # hd (queue_contents s) # tl (queue_contents s) \<and>
    pending s' = request_buffer s # tl (queue_contents s) @ [frame_with_byte s] \<and>
    (\<forall>evs out s''. quiet k evs s' \<and> exec k evs s' = Inr (out, s'') \<longrightarrow>
       out @ pending s'' = request_buffer s # tl (queue_contents s) @ [frame_with_byte s]) \<and>
    (\<exists>s''. exec k (drain 8 buffer) s' =
              Inr (request_buffer s # tl (queue_contents s) @ [frame_with_byte s], s'') \<and>
            pending s'' = [])"
proof -
  from assms(1,4) have full: "tail_frame_buffer s = head_frame_buffer (incrementHeadFrameBuffer s)"
    by (simp add: queue_full)
  from assms(1) have t: "tail_frame_buffer s < 8" by (simp add: well_formed_def)
  from isr_completes [OF assms(1,2)] full assms(3) obtain s' where i: "isr k inp s = Inr s'"
    and st: "state s' = DETECT_BREAK" and ef: "error_flag s'"
    and h': "head_frame_buffer s' = tail_frame_buffer s"
    and p: "pending s' = request_buffer s # tl (queue_contents s) @ [frame_with_byte s]"
    by auto
  note wf' = isr_wf [OF assms(1) i]
  from assms(2) have rd: "state s = READ_DATA" by (simp add: frame_completes_def frame_ends_def)
  from StateReadData_handle_isr_completes [OF assms(1,2)] full assms(3) obtain s1 where
    d: "StateReadData_handle_isr k inp s = Inr s1" and hd1: "request_buffer_has_data s1"
    and t1: "tail_frame_buffer s1 = tail_frame_buffer (incrementTailFrameBuffer s)"
    by auto
  from d rd have "dispatch k inp s = Inr s1" by (simp add: dispatch_def)
  from isr_after_dispatch [OF assms(1) this] i hd1 have "s' = s1" by auto
  with t1 have t': "unat (tail_frame_buffer s') = (unat (tail_frame_buffer s) + 1) mod 8"
    using unat_incr8 [OF t] by (simp add: step_fields)
  from assms(4) have "queue_contents s \<noteq> []" by auto
  with assms(3) have ps: "pending s = request_buffer s # hd (queue_contents s) # tl (queue_contents s)"
    by (simp add: pending_def)
  have q: "\<forall>evs out s''. quiet k evs s' \<and> exec k evs s' = Inr (out, s'') \<longrightarrow>
       out @ pending s'' = request_buffer s # tl (queue_contents s) @ [frame_with_byte s]"
    using quiet_exec [OF wf'] p by auto
  from hd1 \<open>s' = s1\<close> have sat: "request_buffer_has_data s' \<or> tail_frame_buffer s' = head_frame_buffer s'"
    by simp
  from assms(4) p have "length (pending s') = 8" by simp
  with drain_delivers [OF wf' st sat, of k 8 buffer] p
  have dr: "\<exists>s''. exec k (drain 8 buffer) s' =
              Inr (request_buffer s # tl (queue_contents s) @ [frame_with_byte s], s'') \<and>
            pending s'' = []"
    by simp
  from i ef st h' t' ps p q dr show ?thesis by blast
qed

theorem ninth_frame_evicts_oldest_queued_witness:
  "\<exists>s' s''.
     isr 26 \<lparr>is_rx_high = True, polls = [(True, 0), (True, 200)]\<rparr>
       ((init power_on)\<lparr>state := READ_DATA, bytes_read := 3, bits_read_in_byte := 9,
          byte_buffer := 0xA5, tail_frame_buffer := 1, request_buffer_has_data := True,
          request_buffer := \<lparr>num_bytes = 4, bytes = replicate 11 9\<rparr>,
          rx_frame_buffers := \<lparr>num_bytes = 3, bytes = replicate 11 0\<rparr> #
            map (\<lambda>i. \<lparr>num_bytes = 4, bytes = replicate 11 i\<rparr>) [1, 2, 3, 4, 5, 6, 7]\<rparr>) = Inr s' \<and>
     error_flag s' \<and> head_frame_buffer s' = 1 \<and> tail_frame_buffer s' = 2 \<and>
     exec 26 (drain 8 \<lparr>num_bytes = 0, bytes = []\<rparr>) s' =
       Inr (\<lparr>num_bytes = 4, bytes = replicate 11 9\<rparr> #
            map (\<lambda>i. \<lparr>num_bytes = 4, bytes = replicate 11 i\<rparr>) [2, 3, 4, 5, 6, 7] @
            [\<lparr>num_bytes = 4, bytes = [0, 0, 0, 0xA5, 0, 0, 0, 0, 0, 0, 0]\<rparr>], s'')"
proof -
  let ?s = "(init power_on)\<lparr>state := READ_DATA, bytes_read := 3, bits_read_in_byte := 9,
          byte_buffer := 0xA5, tail_frame_buffer := 1, request_buffer_has_data := True,
          request_buffer := \<lparr>num_bytes = 4, bytes = replicate 11 9\<rparr>,
          rx_frame_buffers := \<lparr>num_bytes = 3, bytes = replicate 11 0\<rparr> #
            map (\<lambda>i. \<lparr>num_bytes = 4, bytes = replicate 11 i\<rparr>) [1, 2, 3, 4, 5, 6, 7]\<rparr>"
  let ?inp = "\<lparr>is_rx_high = True, polls = [(True, 0), (True, 200)]\<rparr>"
  have wf: "well_formed ?s" by code_simp
  have fc: "frame_completes 26 ?inp ?s" by code_simp
  have hd: "request_buffer_has_data ?s" by code_simp
  have full: "length (queue_contents ?s) = 7" by code_simp
  have q: "tl (queue_contents ?s) =
      map (\<lambda>i. \<lparr>num_bytes = 4, bytes = replicate 11 i\<rparr>) [2, 3, 4, 5, 6, 7]"
    by code_simp
  have f: "frame_with_byte ?s = \<lparr>num_bytes = 4, bytes = [0, 0, 0, 0xA5, 0, 0, 0, 0, 0, 0, 0]\<rparr>"
    by code_simp
  have r: "request_buffer ?s = \<lparr>num_bytes = 4, bytes = replicate 11 9\<rparr>" "tail_frame_buffer ?s = 1"
    by simp_all
  from ninth_frame_evicts_oldest_queued [OF wf fc hd full, of "\<lparr>num_bytes = 0, bytes = []\<rparr>"]
  obtain s' s'' where i: "isr 26 ?inp ?s = Inr s'" and e: "error_flag s'"
    and h: "head_frame_buffer s' = tail_frame_buffer ?s"
    and t: "unat (tail_frame_buffer s') = (unat (tail_frame_buffer ?s) + 1) mod 8"
    and d: "exec 26 (drain 8 \<lparr>num_bytes = 0, bytes = []\<rparr>) s' =
       Inr (request_buffer ?s # tl (queue_contents ?s) @ [frame_with_byte ?s], s'')"
    by blast
  from t have "unat (tail_frame_buffer s') = unat (2 :: uint8)" unfolding r by simp
  then have "tail_frame_buffer s' = 2" by (simp only: word_unat_eq_iff)
  with i e h d show ?thesis unfolding q f r by blast
qed

text \<open>
  C6. When the wait after a byte times out and fewer than 4 bytes have been read, the
  interrupt sets the error flag, leaves the head index where it is and returns to break
  detection. The frames not yet read are those of before: whatever follows, as long as no
  frame completes, \<^verbatim>\<open>readNextFrame\<close> returns those frames only.
\<close>

theorem short_frame_discarded:
  assumes "well_formed s" and "frame_too_short k inp s"
  shows "\<exists>s'. isr k inp s = Inr s' \<and> error_flag s' \<and> state s' = DETECT_BREAK \<and>
    head_frame_buffer s' = head_frame_buffer s \<and> pending s' = pending s \<and>
    (\<forall>evs out s''. quiet k evs s' \<and> exec k evs s' = Inr (out, s'') \<longrightarrow>
       out @ pending s'' = pending s)"
proof -
  from isr_too_short [OF assms] obtain s' where i: "isr k inp s = Inr s'"
    and st: "state s' = DETECT_BREAK" and ef: "error_flag s'" by blast
  from assms(2) have nc: "\<not> frame_completes k inp s"
    by (simp add: frame_too_short_def frame_completes_def)
  note q = isr_quiet [OF assms(1) nc i]
  have "\<forall>evs out s''. quiet k evs s' \<and> exec k evs s' = Inr (out, s'') \<longrightarrow>
       out @ pending s'' = pending s"
    using quiet_exec [OF isr_wf [OF assms(1) i]] q(1) by auto
  with i st ef q show ?thesis by blast
qed

theorem short_frame_discarded_witness:
  "\<exists>s'.
     isr 26 \<lparr>is_rx_high = True, polls = [(True, 0), (True, 200)]\<rparr>
       ((init power_on)\<lparr>state := READ_DATA, bytes_read := 2, bits_read_in_byte := 9,
          byte_buffer := 0xA5,
          rx_frame_buffers := (rx_frame_buffers power_on)
            [0 := \<lparr>num_bytes = 2, bytes = [0x55, 1, 0, 0, 0, 0, 0, 0, 0, 0, 0]\<rparr>]\<rparr>) = Inr s' \<and>
     error_flag s' \<and> state s' = DETECT_BREAK \<and> head_frame_buffer s' = 0 \<and> pending s' = []"
proof -
  let ?s = "(init power_on)\<lparr>state := READ_DATA, bytes_read := 2, bits_read_in_byte := 9,
          byte_buffer := 0xA5,
          rx_frame_buffers := (rx_frame_buffers power_on)
            [0 := \<lparr>num_bytes = 2, bytes = [0x55, 1, 0, 0, 0, 0, 0, 0, 0, 0, 0]\<rparr>]\<rparr>"
  let ?inp = "\<lparr>is_rx_high = True, polls = [(True, 0), (True, 200)]\<rparr>"
  have wf: "well_formed ?s" by code_simp
  have ts: "frame_too_short 26 ?inp ?s" by code_simp
  have p: "pending ?s = []" by code_simp
  have h: "head_frame_buffer ?s = 0" by code_simp
  from short_frame_discarded [OF wf ts] p h show ?thesis by auto
qed

section \<open>The hand-off attempt at the end of the interrupt routine\<close>

lemma queue_nonempty:
  assumes "well_formed s"
  shows "queue_contents s \<noteq> [] \<longleftrightarrow> tail_frame_buffer s \<noteq> head_frame_buffer s"
proof -
  from assms have ht: "head_frame_buffer s < 8" "tail_frame_buffer s < 8"
    by (simp_all add: well_formed_def)
  let ?h = "unat (head_frame_buffer s)" and ?t = "unat (tail_frame_buffer s)"
  have "(8 + ?h - ?t) mod 8 = 0 \<longleftrightarrow> ?t = ?h"
    using lt8_cases [OF unat_lt8 [OF ht(1)]] lt8_cases [OF unat_lt8 [OF ht(2)]]
    by (elim disjE; simp)
  then have "length (queue_contents s) = 0 \<longleftrightarrow> tail_frame_buffer s = head_frame_buffer s"
    by (simp add: queue_contents_def length_ring_slice word_unat_eq_iff del: length_0_conv)
  then show ?thesis by simp
qed

lemma hd_queue_contents:
  assumes "well_formed s" and "tail_frame_buffer s \<noteq> head_frame_buffer s"
  shows "hd (queue_contents s) = rx_frame_buffers s ! unat (tail_frame_buffer s)"
proof -
  from assms have ht: "head_frame_buffer s < 8" "tail_frame_buffer s < 8"
    by (simp_all add: well_formed_def)
  from assms(2) have "unat (tail_frame_buffer s) \<noteq> unat (head_frame_buffer s)"
    by (simp add: word_unat_eq_iff)
  from ring_slice_Cons [OF unat_lt8 [OF ht(2)] unat_lt8 [OF ht(1)] this, of "rx_frame_buffers s"]
  show ?thesis by (simp add: queue_contents_def)
qed

text \<open>
  C5. The interrupt routine is the handler of the current state followed by one call of
  \<^verbatim>\<open>maybeServiceRxRequest\<close>. On the decoder that the handler leaves: when the hand-off slot
  is empty and the ring is not (the tail index differs from the head index), the slot at
  the tail index, which is the oldest frame of the ring, is copied into the hand-off slot,
  the tail index moves by one modulo 8 and the flag is set, and nothing else changes;
  otherwise the decoder, with its hand-off slot, flag and tail index, is as the handler
  left it.
\<close>

theorem one_handoff_attempt_per_step:
  assumes "well_formed s" and "dispatch k inp s = Inr s1"
  shows "isr k inp s = maybeServiceRxRequest s1 \<and>
    (queue_contents s1 \<noteq> [] \<longleftrightarrow> tail_frame_buffer s1 \<noteq> head_frame_buffer s1) \<and>
    (if \<not> request_buffer_has_data s1 \<and> tail_frame_buffer s1 \<noteq> head_frame_buffer s1
     then \<exists>s'. isr k inp s = Inr s' \<and>
       request_buffer s' = rx_frame_buffers s1 ! unat (tail_frame_buffer s1) \<and>
       request_buffer s' = hd (queue_contents s1) \<and>
       unat (tail_frame_buffer s') = (unat (tail_frame_buffer s1) + 1) mod 8 \<and>
       request_buffer_has_data s' \<and>
       s' = s1\<lparr>request_buffer := request_buffer s', tail_frame_buffer := tail_frame_buffer s',
              request_buffer_has_data := True\<rparr>
     else isr k inp s = Inr s1)"
proof -
  note wf1 = dispatch_wf [OF assms]
  from wf1 have t: "tail_frame_buffer s1 < 8" by (simp add: well_formed_def)
  have i: "isr k inp s = maybeServiceRxRequest s1" using assms(2) by (simp add: isr_def)
  show ?thesis
  proof (cases "\<not> request_buffer_has_data s1 \<and> tail_frame_buffer s1 \<noteq> head_frame_buffer s1")
    case True
    then have ne: "tail_frame_buffer s1 \<noteq> head_frame_buffer s1" by simp
    show ?thesis
      using True i queue_nonempty [OF wf1] hd_queue_contents [OF wf1 ne] unat_incr8 [OF t]
      by (simp add: maybeServiceRxRequest_eq [OF wf1])
  next
    case False
    then show ?thesis
      using i queue_nonempty [OF wf1]
      by (auto simp: maybeServiceRxRequest_eq [OF wf1])
  qed
qed

theorem one_handoff_attempt_per_step_witness:
  "\<exists>s1 s'.
     dispatch 26 \<lparr>is_rx_high = True, polls = [(True, 0), (True, 200)]\<rparr>
       ((init power_on)\<lparr>state := READ_DATA, bytes_read := 3, bits_read_in_byte := 9,
          byte_buffer := 0xA5,
          rx_frame_buffers := (rx_frame_buffers power_on)
            [0 := \<lparr>num_bytes = 3, bytes = [0x55, 1, 2, 0, 0, 0, 0, 0, 0, 0, 0]\<rparr>]\<rparr>) = Inr s1 \<and>
     \<not> request_buffer_has_data s1 \<and> tail_frame_buffer s1 = 0 \<and> head_frame_buffer s1 = 1 \<and>
     isr 26 \<lparr>is_rx_high = True, polls = [(True, 0), (True, 200)]\<rparr>
       ((init power_on)\<lparr>state := READ_DATA, bytes_read := 3, bits_read_in_byte := 9,
          byte_buffer := 0xA5,
          rx_frame_buffers := (rx_frame_buffers power_on)
            [0 := \<lparr>num_bytes = 3, bytes = [0x55, 1, 2, 0, 0, 0, 0, 0, 0, 0, 0]\<rparr>]\<rparr>) = Inr s' \<and>
     request_buffer_has_data s' \<and> unat (tail_frame_buffer s') = 1 \<and>
     request_buffer s' = \<lparr>num_bytes = 4, bytes = [0x55, 1, 2, 0xA5, 0, 0, 0, 0, 0, 0, 0]\<rparr>"
proof -
  let ?s = "(init power_on)\<lparr>state := READ_DATA, bytes_read := 3, bits_read_in_byte := 9,
          byte_buffer := 0xA5,
          rx_frame_buffers := (rx_frame_buffers power_on)
            [0 := \<lparr>num_bytes = 3, bytes = [0x55, 1, 2, 0, 0, 0, 0, 0, 0, 0, 0]\<rparr>]\<rparr>"
  let ?inp = "\<lparr>is_rx_high = True, polls = [(True, 0), (True, 200)]\<rparr>"
  have wf: "well_formed ?s" by code_simp
  have fc: "frame_completes 26 ?inp ?s" by code_simp
  have st: "state ?s = READ_DATA" by simp
  have c: "\<not> request_buffer_has_data ?s" "tail_frame_buffer ?s = 0"
    "head_frame_buffer (incrementHeadFrameBuffer ?s) = 1" "unat (head_frame_buffer ?s) = 0"
    "length (rx_frame_buffers ?s) = 8"
    by code_simp+
  have f: "frame_with_byte ?s = \<lparr>num_bytes = 4, bytes = [0x55, 1, 2, 0xA5, 0, 0, 0, 0, 0, 0, 0]\<rparr>"
    by code_simp
  from StateReadData_handle_isr_completes [OF wf fc] st c obtain s1 where
    d: "dispatch 26 ?inp ?s = Inr s1" and h: "\<not> request_buffer_has_data s1"
    "tail_frame_buffer s1 = 0" "head_frame_buffer s1 = 1"
    and rx: "rx_frame_buffers s1 = (rx_frame_buffers ?s)[0 := frame_with_byte ?s]"
    unfolding dispatch_def by auto
  from rx c(5) have n: "rx_frame_buffers s1 ! unat (tail_frame_buffer s1) = frame_with_byte ?s"
    using h by simp
  from h have c: "\<not> request_buffer_has_data s1 \<and> tail_frame_buffer s1 \<noteq> head_frame_buffer s1"
    by simp
  from one_handoff_attempt_per_step [OF wf d, THEN conjunct2, THEN conjunct2]
  have "\<exists>s'. isr 26 ?inp ?s = Inr s' \<and>
       request_buffer s' = rx_frame_buffers s1 ! unat (tail_frame_buffer s1) \<and>
       request_buffer s' = hd (queue_contents s1) \<and>
       unat (tail_frame_buffer s') = (unat (tail_frame_buffer s1) + 1) mod 8 \<and>
       request_buffer_has_data s' \<and>
       s' = s1\<lparr>request_buffer := request_buffer s', tail_frame_buffer := tail_frame_buffer s',
              request_buffer_has_data := True\<rparr>"
    by (simp only: c if_True simp_thms)
  then obtain s' where i: "isr 26 ?inp ?s = Inr s'"
    and r: "request_buffer s' = rx_frame_buffers s1 ! unat (tail_frame_buffer s1)"
    and t: "unat (tail_frame_buffer s') = (unat (tail_frame_buffer s1) + 1) mod 8"
    and g: "request_buffer_has_data s'"
    by blast
  from t h have "unat (tail_frame_buffer s') = 1" by simp
  with d h i g r n f show ?thesis by metis
qed

section \<open>The error flag\<close>

lemma append_byte_error_flag: "append_byte s = Inr s2 \<Longrightarrow> error_flag s2 = error_flag s"
  by (auto simp: append_byte_def Let_def split: if_splits)

lemma StateReadData_enter_error_flag: "StateReadData_enter hw s = Inr s' \<Longrightarrow> error_flag s' = error_flag s"
  by (auto simp: StateReadData_enter_def Let_def split: if_splits option.splits)

lemma maybeServiceRxRequest_error_flag:
  "maybeServiceRxRequest s = Inr s' \<Longrightarrow> error_flag s' = error_flag s"
  by (auto simp: maybeServiceRxRequest_def incrementTailFrameBuffer_eq split: if_splits)

lemma StateDetectBreak_handle_isr_error_flag:
  assumes "StateDetectBreak_handle_isr inp s = Inr s'"
  shows "error_flag s' = error_flag s"
  using assms StateReadData_enter_error_flag
  by (fastforce simp: StateDetectBreak_handle_isr_def Let_def split: if_splits option.splits)

lemma StateReadData_handle_isr_error_flag:
  assumes "StateReadData_handle_isr k inp s = Inr s'" and "error_flag s"
  shows "error_flag s'"
proof -
  consider (a) "bits_read_in_byte s = 0 \<or> bits_read_in_byte s \<le> 8 \<or> \<not> is_rx_high inp"
    | (b) "bits_read_in_byte s \<noteq> 0" "\<not> bits_read_in_byte s \<le> 8" "is_rx_high inp" by blast
  then show ?thesis
  proof cases
    case a
    with assms show ?thesis
      by (auto simp: StateReadData_handle_isr_def step_fields split: if_splits)
  next
    case b
    from assms(1) b obtain s2 where s2: "append_byte s = Inr s2"
      by (auto simp: StateReadData_handle_isr_def split: sum.splits)
    from assms(1) b s2 obtain found rest where w: "waitForRxLow (ucast k * 4) (polls inp) = Some (found, rest)"
      by (auto simp: StateReadData_handle_isr_def split: option.splits)
    from append_byte_error_flag [OF s2] assms(2) have "error_flag s2" by simp
    with assms(1) show ?thesis
      unfolding stop_bit_result [OF b s2 w]
      by (auto simp: step_fields split: if_splits)
  qed
qed

lemma isr_error_flag_sticky:
  assumes "isr k inp s = Inr s'" and "error_flag s"
  shows "error_flag s'"
proof -
  from assms(1) obtain s1 where d: "dispatch k inp s = Inr s1" and m: "maybeServiceRxRequest s1 = Inr s'"
    by (auto simp: isr_def split: sum.splits)
  have "error_flag s1"
  proof (cases "state s")
    case DETECT_BREAK
    with d have "StateDetectBreak_handle_isr inp s = Inr s1" by (simp add: dispatch_def)
    from StateDetectBreak_handle_isr_error_flag [OF this] assms(2) show ?thesis by simp
  next
    case READ_DATA
    with d have "StateReadData_handle_isr k inp s = Inr s1" by (simp add: dispatch_def)
    from StateReadData_handle_isr_error_flag [OF this assms(2)] show ?thesis .
  qed
  with maybeServiceRxRequest_error_flag [OF m] show ?thesis by simp
qed

lemma exec_error_flag_sticky:
  assumes "error_flag s" and "Clear \<notin> set evs" and "exec k evs s = Inr (out, s')"
  shows "error_flag s'"
  using assms
proof (induction evs arbitrary: s out)
  case Nil
  then show ?case by simp
next
  case (Cons ev evs)
  show ?case
  proof (cases ev)
    case (Tick inp)
    with Cons.prems(3) obtain s1 where i: "isr k inp s = Inr s1" and e: "exec k evs s1 = Inr (out, s')"
      by (auto split: sum.splits)
    from Cons.IH [OF isr_error_flag_sticky [OF i Cons.prems(1)] _ e] Cons.prems(2)
    show ?thesis by simp
  next
    case (Read buffer)
    obtain got b' s1 where r: "readNextFrame buffer s = (got, b', s1)"
      by (cases "readNextFrame buffer s") auto
    with Cons.prems(3) Read obtain out1 where e: "exec k evs s1 = Inr (out1, s')"
      by (auto split: sum.splits)
    from r Cons.prems(1) have "error_flag s1" by (auto simp: readNextFrame_def split: if_splits)
    from Cons.IH [OF this _ e] Cons.prems(2) show ?thesis by simp
  next
    case Clear
    with Cons.prems(2) show ?thesis by simp
  qed
qed

lemma isr_bit_violation:
  assumes "well_formed s" and "start_bit_violation inp s \<or> stop_bit_violation inp s"
  shows "\<exists>s'. isr k inp s = Inr s' \<and> state s' = DETECT_BREAK \<and> error_flag s' \<and>
    low_bits_counter s' = 0"
proof -
  from assms(2) have "dispatch k inp s = Inr (StateDetectBreak_enter (setErrorFlag s))"
    by (auto simp: start_bit_violation_def stop_bit_violation_def dispatch_def
        StateReadData_handle_isr_def stop_bit_position)
  from isr_after_dispatch [OF assms(1) this] show ?thesis
    by (auto simp: step_fields)
qed

lemma isr_queue_overrun:
  assumes "well_formed s" and "queue_overrun k inp s"
  shows "\<exists>s'. isr k inp s = Inr s' \<and> state s' = DETECT_BREAK \<and> error_flag s' \<and>
    low_bits_counter s' = 0"
  using isr_completes [OF assms(1)] assms(2)
  by (auto simp: queue_overrun_def)

lemma flag_set_by_anomaly:
  assumes "well_formed s" and "\<not> error_flag s" and "isr k inp s = Inr s'" and "error_flag s'"
  shows "start_bit_violation inp s \<or> stop_bit_violation inp s \<or> capacity_overflow k inp s \<or>
    frame_too_short k inp s \<or> queue_overrun k inp s"
proof -
  from assms(3) obtain s1 where d: "dispatch k inp s = Inr s1" and m: "maybeServiceRxRequest s1 = Inr s'"
    by (auto simp: isr_def split: sum.splits)
  from maybeServiceRxRequest_error_flag [OF m] assms(4) have e1: "error_flag s1" by simp
  show ?thesis
  proof (cases "state s")
    case DETECT_BREAK
    with d have "StateDetectBreak_handle_isr inp s = Inr s1" by (simp add: dispatch_def)
    from StateDetectBreak_handle_isr_error_flag [OF this] assms(2) e1 show ?thesis by simp
  next
    case READ_DATA
    with d have h: "StateReadData_handle_isr k inp s = Inr s1" by (simp add: dispatch_def)
    consider (a) "bits_read_in_byte s = 0 \<or> bits_read_in_byte s \<le> 8 \<or> \<not> is_rx_high inp"
      | (b) "bits_read_in_byte s \<noteq> 0" "\<not> bits_read_in_byte s \<le> 8" "is_rx_high inp" by blast
    then show ?thesis
    proof cases
      case a
      with h e1 assms(2) READ_DATA show ?thesis
        by (auto simp: StateReadData_handle_isr_def start_bit_violation_def stop_bit_violation_def
            stop_bit_position split: if_splits)
    next
      case b
      from append_byte_eq [OF assms(1) READ_DATA] obtain s2 where s2: "append_byte s = Inr s2" by blast
      note f = append_byte_wf [OF assms(1) READ_DATA s2]
      have br: "bytes_read s2 = bytes_read s + 1" by (rule append_byte_fields [OF assms(1) READ_DATA s2])
      from append_byte_error_flag [OF s2] assms(2) have e2: "\<not> error_flag s2" by simp
      from h b s2 obtain found rest where w: "waitForRxLow (ucast k * 4) (polls inp) = Some (found, rest)"
        by (auto simp: StateReadData_handle_isr_def split: option.splits)
      then have n: "next_start_bit k inp = Some found" by (simp add: next_start_bit_def)
      have pos: "8 < bits_read_in_byte s" using b by (simp add: stop_bit_position)
      have nb: "num_bytes (frame_with_byte s) =
          num_bytes (rx_frame_buffers s ! unat (head_frame_buffer s)) + 1"
        by (simp add: frame_with_byte_def Let_def)
      from h e1 e2 show ?thesis
        unfolding stop_bit_result [OF b s2 w] br
        using READ_DATA pos b(3) n f(1,2,6) nb
        by (auto simp: step_fields frame_too_short_def queue_overrun_def frame_completes_def
            frame_ends_def capacity_overflow_def split: if_splits)
    qed
  qed
qed

text \<open>
  C2. An interrupt that meets a start-bit violation, a stop-bit violation, a start bit after
  the 11th byte, a frame that ends with fewer than 4 bytes or a queue overrun sets the
  error flag and leaves the receiver in \<^verbatim>\<open>DETECT_BREAK\<close> with its counter of low samples at
  0; an interrupt sets the flag in these cases only. Once set, the flag stays set over any
  run of interrupts and \<^verbatim>\<open>readNextFrame\<close> calls without \<^verbatim>\<open>clearErrors\<close>, which clears it.
\<close>

theorem anomaly_sets_sticky_flag_and_resets:
  "(well_formed s \<and>
    (start_bit_violation inp s \<or> stop_bit_violation inp s \<or> capacity_overflow k inp s \<or>
     frame_too_short k inp s \<or> queue_overrun k inp s) \<longrightarrow>
      (\<exists>s'. isr k inp s = Inr s' \<and> error_flag s' \<and> state s' = DETECT_BREAK \<and>
         low_bits_counter s' = 0)) \<and>
   (well_formed s \<and> \<not> error_flag s \<and> isr k inp s = Inr s1 \<and> error_flag s1 \<longrightarrow>
      start_bit_violation inp s \<or> stop_bit_violation inp s \<or> capacity_overflow k inp s \<or>
      frame_too_short k inp s \<or> queue_overrun k inp s) \<and>
   (error_flag s \<and> Clear \<notin> set evs \<and> exec k evs s = Inr (out, s2) \<longrightarrow> error_flag s2) \<and>
   \<not> hasErrors (clearErrors s)"
proof (intro conjI impI)
  assume a: "well_formed s \<and>
    (start_bit_violation inp s \<or> stop_bit_violation inp s \<or> capacity_overflow k inp s \<or>
     frame_too_short k inp s \<or> queue_overrun k inp s)"
  then have wf: "well_formed s" by simp
  from a consider "start_bit_violation inp s \<or> stop_bit_violation inp s"
    | "capacity_overflow k inp s" | "frame_too_short k inp s" | "queue_overrun k inp s"
    by blast
  then show "\<exists>s'. isr k inp s = Inr s' \<and> error_flag s' \<and> state s' = DETECT_BREAK \<and>
         low_bits_counter s' = 0"
  proof cases
    case 1
    from isr_bit_violation [OF wf this, of k] show ?thesis by blast
  next
    case 2
    from capacity_overflow_resets [OF wf this] show ?thesis by blast
  next
    case 3
    from isr_too_short [OF wf this] show ?thesis by blast
  next
    case 4
    from isr_queue_overrun [OF wf this] show ?thesis by blast
  qed
next
  assume "well_formed s \<and> \<not> error_flag s \<and> isr k inp s = Inr s1 \<and> error_flag s1"
  then show "start_bit_violation inp s \<or> stop_bit_violation inp s \<or> capacity_overflow k inp s \<or>
      frame_too_short k inp s \<or> queue_overrun k inp s"
    using flag_set_by_anomaly by blast
next
  assume "error_flag s \<and> Clear \<notin> set evs \<and> exec k evs s = Inr (out, s2)"
  then show "error_flag s2" using exec_error_flag_sticky by blast
next
  show "\<not> hasErrors (clearErrors s)" by (simp add: hasErrors_def clearErrors_def)
qed

theorem anomaly_sets_sticky_flag_and_resets_witness:
  "case isr 26 \<lparr>is_rx_high = True, polls = [(True, 0), (True, 200)]\<rparr>
       ((init power_on)\<lparr>state := READ_DATA, bytes_read := 2, bits_read_in_byte := 9,
          byte_buffer := 0xA5,
          rx_frame_buffers := (rx_frame_buffers power_on)
            [0 := \<lparr>num_bytes = 2, bytes = [0x55, 1, 0, 0, 0, 0, 0, 0, 0, 0, 0]\<rparr>]\<rparr>) of
     Inl f \<Rightarrow> False
   | Inr s' \<Rightarrow> error_flag s' \<and> state s' = DETECT_BREAK \<and>
      (case exec 26 [Tick \<lparr>is_rx_high = True, polls = []\<rparr>, Read \<lparr>num_bytes = 0, bytes = []\<rparr>,
                     Tick \<lparr>is_rx_high = False, polls = []\<rparr>] s' of
         Inl f \<Rightarrow> False
       | Inr (out, s'') \<Rightarrow> error_flag s'')"
proof -
  let ?s = "(init power_on)\<lparr>state := READ_DATA, bytes_read := 2, bits_read_in_byte := 9,
          byte_buffer := 0xA5,
          rx_frame_buffers := (rx_frame_buffers power_on)
            [0 := \<lparr>num_bytes = 2, bytes = [0x55, 1, 0, 0, 0, 0, 0, 0, 0, 0, 0]\<rparr>]\<rparr>"
  let ?inp = "\<lparr>is_rx_high = True, polls = [(True, 0), (True, 200)]\<rparr>"
  let ?evs = "[Tick \<lparr>is_rx_high = True, polls = []\<rparr>, Read \<lparr>num_bytes = 0, bytes = []\<rparr>,
               Tick \<lparr>is_rx_high = False, polls = []\<rparr>]"
  have wf: "well_formed ?s" by code_simp
  have ts: "frame_too_short 26 ?inp ?s" by code_simp
  from anomaly_sets_sticky_flag_and_resets [where s = ?s and inp = ?inp and k = 26, THEN conjunct1]
    wf ts
  obtain s' where i: "isr 26 ?inp ?s = Inr s'" and e: "error_flag s'" and st: "state s' = DETECT_BREAK"
    by blast
  have "case isr 26 ?inp ?s of Inl f \<Rightarrow> False
      | Inr s' \<Rightarrow> (case exec 26 ?evs s' of Inl f \<Rightarrow> False | Inr p \<Rightarrow> True)"
    by code_simp
  with i obtain out s'' where x: "exec 26 ?evs s' = Inr (out, s'')"
    by (auto split: sum.splits)
  have nc: "Clear \<notin> set ?evs" by simp
  from anomaly_sets_sticky_flag_and_resets
      [where s = s' and evs = ?evs and k = 26 and out = out and ?s2.0 = s'',
        THEN conjunct2, THEN conjunct2, THEN conjunct1] e nc x
  have "error_flag s''" by blast
  with i e st x show ?thesis by simp
qed

section \<open>Decoding one byte\<close>

lemma feed_append:
  "feed k (xs @ ys) s = (case feed k xs s of Inl f \<Rightarrow> Inl f | Inr s' \<Rightarrow> feed k ys s')"
  by (induction xs arbitrary: s) (auto split: sum.splits)

lemma take_bit_Suc_OR:
  "take_bit (Suc n) b = (if bit b n then take_bit n b OR push_bit n 1 else take_bit n b)"
  for b :: uint8
  by (rule bit_eqI) (auto simp: bit_simps less_Suc_eq)

lemma data_bit_position:
  assumes "n < 8"
  shows "(1 + of_nat n :: uint8) \<noteq> 0" "(1 + of_nat n :: uint8) \<le> 8"
  using lt8_cases [OF assms] by (elim disjE; simp)+

text \<open>The eight data bits: after \<open>n\<close> of them the accumulator holds the low \<open>n\<close> bits.\<close>

lemma data_bits:
  assumes "map is_rx_high inps = map (bit b) [0..<n]" and "n \<le> 8"
  shows "feed k inps (s\<lparr>byte_buffer := 0, byte_buffer_bit_mask := 1, bits_read_in_byte := 1\<rparr>) =
     Inr (s\<lparr>byte_buffer := take_bit n b, byte_buffer_bit_mask := push_bit n 1,
            bits_read_in_byte := 1 + of_nat n\<rparr>)"
  using assms
proof (induction n arbitrary: inps)
  case 0
  then show ?case by simp
next
  case (Suc n)
  from Suc.prems(1) obtain inps' x where inps: "inps = inps' @ [x]"
    and m: "map is_rx_high inps' = map (bit b) [0..<n]" and x: "is_rx_high x = bit b n"
    by (auto simp: map_eq_append_conv)
  from Suc.prems(2) have n: "n < 8" by simp
  note pos = data_bit_position [OF n]
  let ?s = "s\<lparr>byte_buffer := take_bit n b, byte_buffer_bit_mask := push_bit n 1,
            bits_read_in_byte := 1 + of_nat n\<rparr>"
  have "StateReadData_handle_isr k x ?s =
      Inr (s\<lparr>byte_buffer := take_bit (Suc n) b, byte_buffer_bit_mask := push_bit (Suc n) 1,
             bits_read_in_byte := 1 + of_nat (Suc n)\<rparr>)"
    using pos x by (simp add: StateReadData_handle_isr_def take_bit_Suc_OR [of n b] push_bit_Suc
        add.commute mult.commute)
  with Suc.IH [OF m] n show ?case
    by (simp add: inps feed_append)
qed

lemma stop_bit_keeps_slots:
  assumes "bits_read_in_byte s \<noteq> 0" "\<not> bits_read_in_byte s \<le> 8" "is_rx_high inp"
    and "append_byte s = Inr s2"
    and "waitForRxLow (ucast k * 4) (polls inp) \<noteq> None"
  shows "\<exists>s'. StateReadData_handle_isr k inp s = Inr s' \<and> rx_frame_buffers s' = rx_frame_buffers s2"
proof -
  from assms(5) obtain found rest where w: "waitForRxLow (ucast k * 4) (polls inp) = Some (found, rest)"
    by auto
  show ?thesis
    unfolding stop_bit_result [OF assms(1-4) w]
    by (simp add: step_fields)
qed

text \<open>
  C1. Fed the ten samples of a byte \<open>b\<close> (low start bit, the bits of \<open>b\<close> from the least
  significant one, high stop bit) from bit position 0, with room in the slot at the head
  index and a wait after the stop bit that returns, the read-data handler stores \<open>b\<close> at
  the end of that slot and adds one to its count; no other slot changes.
\<close>

theorem byte_decoded:
  assumes "map is_rx_high inps = encode_byte b"
    and "bits_read_in_byte s = 0"
    and "unat (head_frame_buffer s) < length (rx_frame_buffers s)"
    and "unat (num_bytes (rx_frame_buffers s ! unat (head_frame_buffer s)))
           < length (bytes (rx_frame_buffers s ! unat (head_frame_buffer s)))"
    and "waitForRxLow (ucast k * 4) (polls (last inps)) \<noteq> None"
  shows "\<exists>s'. feed k inps s = Inr s' \<and>
    rx_frame_buffers s' = (rx_frame_buffers s)
      [unat (head_frame_buffer s) :=
         (rx_frame_buffers s ! unat (head_frame_buffer s))
           \<lparr>bytes := (bytes (rx_frame_buffers s ! unat (head_frame_buffer s)))
               [unat (num_bytes (rx_frame_buffers s ! unat (head_frame_buffer s))) := b],
            num_bytes := num_bytes (rx_frame_buffers s ! unat (head_frame_buffer s)) + 1\<rparr>]"
proof -
  from assms(1) obtain start mid stop where inps: "inps = start # mid @ [stop]"
    and lo: "\<not> is_rx_high start" and m: "map is_rx_high mid = map (bit b) [0..<8]"
    and hi: "is_rx_high stop"
    by (auto simp: encode_byte_def map_eq_Cons_conv map_eq_append_conv)
  let ?s1 = "s\<lparr>byte_buffer := 0, byte_buffer_bit_mask := 1, bits_read_in_byte := 1\<rparr>"
  let ?s9 = "s\<lparr>byte_buffer := take_bit 8 b, byte_buffer_bit_mask := push_bit 8 1,
               bits_read_in_byte := 1 + of_nat 8\<rparr>"
  let ?h = "unat (head_frame_buffer s)"
  let ?fb = "rx_frame_buffers s ! ?h"
  let ?rx = "(rx_frame_buffers s)
      [?h := ?fb\<lparr>bytes := (bytes ?fb)[unat (num_bytes ?fb) := b], num_bytes := num_bytes ?fb + 1\<rparr>]"
  have a: "StateReadData_handle_isr k start s = Inr ?s1"
    using lo assms(2) by (simp add: StateReadData_handle_isr_def)
  have b: "feed k mid ?s1 = Inr ?s9"
    by (rule data_bits [OF m]) simp
  have tb: "take_bit 8 b = b" by (simp add: take_bit_word_eq_self)
  have "append_byte ?s9 = Inr (?s9\<lparr>rx_frame_buffers := ?rx, bytes_read := bytes_read s + 1,
      bits_read_in_byte := 0\<rparr>)"
    using assms(3,4) by (simp add: append_byte_def Let_def tb)
  moreover from assms(5) have "waitForRxLow (ucast k * 4) (polls stop) \<noteq> None"
    by (simp add: inps)
  ultimately obtain s' where c: "StateReadData_handle_isr k stop ?s9 = Inr s'"
    and rx: "rx_frame_buffers s' = ?rx"
    using stop_bit_keeps_slots [of ?s9 stop _ k] hi by auto
  from a b c have "feed k inps s = Inr s'"
    by (simp add: inps feed_append)
  with rx show ?thesis by blast
qed

theorem byte_decoded_witness:
  "\<exists>s'. feed 26
       (map (\<lambda>x. \<lparr>is_rx_high = x, polls = [(True, 0), (False, 1)]\<rparr>)
          [False, True, False, True, False, False, True, False, True, True])
       ((init power_on)\<lparr>state := READ_DATA\<rparr>) = Inr s' \<and>
     rx_frame_buffers s' =
       (rx_frame_buffers (init power_on))
         [0 := \<lparr>num_bytes = 1, bytes = [0xA5, 0, 0, 0, 0, 0, 0, 0, 0, 0, 0]\<rparr>]"
proof -
  let ?inps = "map (\<lambda>x. \<lparr>is_rx_high = x, polls = [(True, 0), (False, 1)]\<rparr>)
          [False, True, False, True, False, False, True, False, True, True]"
  let ?s = "(init power_on)\<lparr>state := READ_DATA\<rparr>"
  have e: "map is_rx_high ?inps = encode_byte 0xA5" by code_simp
  have p: "bits_read_in_byte ?s = 0" by code_simp
  have h: "unat (head_frame_buffer ?s) < length (rx_frame_buffers ?s)" by code_simp
  have n: "unat (num_bytes (rx_frame_buffers ?s ! unat (head_frame_buffer ?s)))
           < length (bytes (rx_frame_buffers ?s ! unat (head_frame_buffer ?s)))" by code_simp
  have w: "waitForRxLow (ucast (26 :: uint8) * 4) (polls (last ?inps)) \<noteq> None" by code_simp
  have u: "unat (head_frame_buffer ?s) = 0" "rx_frame_buffers ?s = rx_frame_buffers (init power_on)"
    by code_simp+
  have f: "(rx_frame_buffers ?s ! unat (head_frame_buffer ?s))
           \<lparr>bytes := (bytes (rx_frame_buffers ?s ! unat (head_frame_buffer ?s)))
               [unat (num_bytes (rx_frame_buffers ?s ! unat (head_frame_buffer ?s))) := 0xA5],
            num_bytes := num_bytes (rx_frame_buffers ?s ! unat (head_frame_buffer ?s)) + 1\<rparr> =
        \<lparr>num_bytes = 1, bytes = [0xA5, 0, 0, 0, 0, 0, 0, 0, 0, 0, 0]\<rparr>"
    by code_simp
  from byte_decoded [OF e p h n w] show ?thesis
    unfolding f unfolding u .
qed

section \<open>No break, no frame\<close>

lemma samples_append: "samples (xs @ ys) = samples xs @ samples ys"
  by (induction xs rule: samples.induct) simp_all

lemma sublist_behind: "sublist r zs \<Longrightarrow> sublist r (ys @ zs)"
proof -
  assume "sublist r zs"
  then obtain ps ss where "zs = ps @ r @ ss" by (auto simp: sublist_def)
  then have "ys @ zs = (ys @ ps) @ r @ ss" by simp
  then show ?thesis unfolding sublist_def by blast
qed

lemma sublist_before: "sublist r ys \<Longrightarrow> sublist r (ys @ zs)"
proof -
  assume "sublist r ys"
  then obtain ps ss where "ys = ps @ r @ ss" by (auto simp: sublist_def)
  then have "ys @ zs = ps @ r @ (ss @ zs)" by simp
  then show ?thesis unfolding sublist_def by blast
qed

lemma low_count_below_10: "c < 9 \<Longrightarrow> (of_nat c + 1 :: uint8) < 10"
proof -
  assume "c < 9"
  then have "c = 0 \<or> c = 1 \<or> c = 2 \<or> c = 3 \<or> c = 4 \<or> c = 5 \<or> c = 6 \<or> c = 7 \<or> c = 8"
    by linarith
  then show ?thesis by (elim disjE; simp)
qed

text \<open>
  In break detection with \<open>c\<close> low samples counted, nothing waiting, and no ten low samples
  in a row among those counted and those to come, a run stays in break detection and
  returns no frame.
\<close>

lemma no_break_run:
  assumes "state s = DETECT_BREAK" and "low_bits_counter s = of_nat c" and "c < 10"
    and "\<not> request_buffer_has_data s" and "tail_frame_buffer s = head_frame_buffer s"
    and "\<not> sublist (replicate 10 False) (replicate c False @ samples evs)"
  shows "\<exists>s'. exec k evs s = Inr ([], s') \<and> state s' = DETECT_BREAK \<and>
    \<not> request_buffer_has_data s' \<and> tail_frame_buffer s' = head_frame_buffer s'"
  using assms
proof (induction evs arbitrary: s c)
  case Nil
  then show ?case by simp
next
  case (Cons ev evs)
  show ?case
  proof (cases ev)
    case (Tick inp)
    show ?thesis
    proof (cases "is_rx_high inp")
      case True
      let ?s1 = "s\<lparr>low_bits_counter := 0\<rparr>"
      from True Cons.prems(1,4,5) have i: "isr k inp s = Inr ?s1"
        by (simp add: isr_def dispatch_def StateDetectBreak_handle_isr_def maybeServiceRxRequest_def)
      have "\<not> sublist (replicate 10 False) (samples evs)"
      proof
        assume "sublist (replicate 10 False) (samples evs)"
        from sublist_behind [OF this, of "replicate c False @ [True]"] Cons.prems(6) Tick True
        show False by simp
      qed
      then have "\<not> sublist (replicate 10 False) (replicate 0 False @ samples evs)" by simp
      from Cons.IH [of ?s1 0, OF _ _ _ _ _ this] Cons.prems(1,4,5) i Tick
      show ?thesis by simp
    next
      case False
      have c: "c < 9"
      proof (rule ccontr)
        assume "\<not> c < 9"
        with Cons.prems(3) have "c = 9" by simp
        then have "replicate c False @ samples (ev # evs) = replicate 10 False @ samples evs"
          using Tick False by (simp add: numeral_eq_Suc)
        with Cons.prems(6) sublist_append_rightI [of "replicate 10 False" "samples evs"]
        show False by simp
      qed
      let ?s1 = "s\<lparr>low_bits_counter := of_nat (Suc c)\<rparr>"
      from False Cons.prems(1,2,4,5) low_count_below_10 [OF c] have i: "isr k inp s = Inr ?s1"
        by (simp add: isr_def dispatch_def StateDetectBreak_handle_isr_def maybeServiceRxRequest_def
            Let_def add.commute)
      have "replicate (Suc c) False @ samples evs = replicate c False @ samples (ev # evs)"
        using Tick False by (simp add: replicate_app_Cons_same)
      with Cons.prems(6) have "\<not> sublist (replicate 10 False) (replicate (Suc c) False @ samples evs)"
        by simp
      from Cons.IH [of ?s1 "Suc c", OF _ _ _ _ _ this] Cons.prems(1,4,5) c i Tick
      show ?thesis by simp
    qed
  next
    case (Read buffer)
    from Cons.prems(4) have r: "readNextFrame buffer s = (False, buffer, s)"
      by (simp add: readNextFrame_def)
    from Cons.IH [OF Cons.prems(1-5)] Cons.prems(6) Read r show ?thesis
      by auto
  next
    case Clear
    from Cons.IH [of "clearErrors s" c] Cons.prems Clear show ?thesis
      by (simp add: clearErrors_def)
  qed
qed

text \<open>
  C7. Started in break detection with nothing waiting (as \<^verbatim>\<open>init\<close> leaves the decoder),
  on any run whose samples never have ten low ones in a row, the receiver is in
  \<^verbatim>\<open>DETECT_BREAK\<close> after every event, so it never reads data; no \<^verbatim>\<open>readNextFrame\<close> of the
  run returns a frame, and one called at any point returns none.
\<close>

theorem no_break_no_frame:
  assumes "state s = DETECT_BREAK" and "low_bits_counter s = 0"
    and "\<not> request_buffer_has_data s" and "tail_frame_buffer s = head_frame_buffer s"
    and "\<not> sublist (replicate 10 False) (samples evs)"
  shows "\<forall>n \<le> length evs. \<exists>s'. exec k (take n evs) s = Inr ([], s') \<and>
    state s' = DETECT_BREAK \<and> readNextFrame buffer s' = (False, buffer, s')"
proof (intro allI impI)
  fix n assume "n \<le> length evs"
  have "samples evs = samples (take n evs) @ samples (drop n evs)"
    using samples_append [of "take n evs" "drop n evs"] by simp
  with assms(5) sublist_before [of "replicate 10 False" "samples (take n evs)" "samples (drop n evs)"]
  have "\<not> sublist (replicate 10 False) (replicate 0 False @ samples (take n evs))"
    by auto
  from no_break_run [of s 0, OF assms(1) _ _ assms(3,4) this] assms(2)
  obtain s' where "exec k (take n evs) s = Inr ([], s')" "state s' = DETECT_BREAK"
    "\<not> request_buffer_has_data s'" by auto
  then show "\<exists>s'. exec k (take n evs) s = Inr ([], s') \<and>
    state s' = DETECT_BREAK \<and> readNextFrame buffer s' = (False, buffer, s')"
    by (auto simp: readNextFrame_def)
qed

theorem no_break_no_frame_witness:
  "\<exists>s'. exec 26 (replicate 9 (Tick \<lparr>is_rx_high = False, polls = []\<rparr>) @
             [Tick \<lparr>is_rx_high = True, polls = []\<rparr>, Read \<lparr>num_bytes = 0, bytes = []\<rparr>] @
             replicate 9 (Tick \<lparr>is_rx_high = False, polls = []\<rparr>)) (init power_on) = Inr ([], s') \<and>
     state s' = DETECT_BREAK \<and>
     readNextFrame \<lparr>num_bytes = 0, bytes = []\<rparr> s' = (False, \<lparr>num_bytes = 0, bytes = []\<rparr>, s')"
proof -
  let ?evs = "replicate 9 (Tick \<lparr>is_rx_high = False, polls = []\<rparr>) @
             [Tick \<lparr>is_rx_high = True, polls = []\<rparr>, Read \<lparr>num_bytes = 0, bytes = []\<rparr>] @
             replicate 9 (Tick \<lparr>is_rx_high = False, polls = []\<rparr>)"
  have a: "state (init power_on) = DETECT_BREAK" "low_bits_counter (init power_on) = 0"
    "\<not> request_buffer_has_data (init power_on)"
    "tail_frame_buffer (init power_on) = head_frame_buffer (init power_on)"
    by code_simp+
  have b: "\<not> sublist (replicate 10 False) (samples ?evs)" by code_simp
  have l: "length ?evs = 20" by simp
  from no_break_no_frame [OF a b, of 26 "\<lparr>num_bytes = 0, bytes = []\<rparr>"] l
  have "\<exists>s'. exec 26 (take 20 ?evs) (init power_on) = Inr ([], s') \<and>
    state s' = DETECT_BREAK \<and>
    readNextFrame \<lparr>num_bytes = 0, bytes = []\<rparr> s' = (False, \<lparr>num_bytes = 0, bytes = []\<rparr>, s')"
    by (metis order_refl)
  then show ?thesis by simp
qed

section \<open>The busy-wait loops and what their callers do with the result\<close>

lemma waitForRxLow_loop_returns:
  assumes "i < length hw" and "\<not> fst (hw ! i) \<or> m \<le> snd (hw ! i) - base"
  shows "\<exists>found rest. waitForRxLow_loop m base hw = Some (found, rest) \<and>
    length hw - Suc i \<le> length rest"
  using assms
proof (induction hw arbitrary: i)
  case Nil
  then show ?case by simp
next
  case (Cons r hw)
  obtain rx_high clk where r: "r = (rx_high, clk)" by (cases r)
  show ?case
  proof (cases i)
    case 0
    with Cons.prems r show ?thesis by auto
  next
    case (Suc j)
    with Cons.prems have "j < length hw" "\<not> fst (hw ! j) \<or> m \<le> snd (hw ! j) - base" by simp_all
    from Cons.IH [OF this] obtain found rest where
      "waitForRxLow_loop m base hw = Some (found, rest)" "length hw - Suc j \<le> length rest"
      by blast
    with r Suc show ?thesis by auto
  qed
qed

lemma waitForRxHigh_loop_returns:
  assumes "i < length hw" and "fst (hw ! i) \<or> m \<le> snd (hw ! i) - base"
  shows "\<exists>found rest. waitForRxHigh_loop m base hw = Some (found, rest) \<and>
    length hw - Suc i \<le> length rest"
  using assms
proof (induction hw arbitrary: i)
  case Nil
  then show ?case by simp
next
  case (Cons r hw)
  obtain rx_high clk where r: "r = (rx_high, clk)" by (cases r)
  show ?case
  proof (cases i)
    case 0
    with Cons.prems r show ?thesis by auto
  next
    case (Suc j)
    with Cons.prems have "j < length hw" "fst (hw ! j) \<or> m \<le> snd (hw ! j) - base" by simp_all
    from Cons.IH [OF this] obtain found rest where
      "waitForRxHigh_loop m base hw = Some (found, rest)" "length hw - Suc j \<le> length rest"
      by blast
    with r Suc show ?thesis by auto
  qed
qed

lemma break_step_ignores_waits:
  assumes "well_formed s" and "state s = DETECT_BREAK" and "\<not> is_rx_high inp"
    and "\<not> low_bits_counter s + 1 < 10"
    and "waitForRxHigh 255 (polls inp) = Some (r1, hw1)" and "waitForRxLow 255 hw1 = Some (r2, hw2)"
  shows "dispatch k inp s =
    Inr (s\<lparr>low_bits_counter := low_bits_counter s + 1, state := READ_DATA, bytes_read := 0,
           bits_read_in_byte := 0,
           rx_frame_buffers := (rx_frame_buffers s)
             [unat (head_frame_buffer s) :=
                (rx_frame_buffers s ! unat (head_frame_buffer s))\<lparr>num_bytes := 0\<rparr>]\<rparr>)"
proof -
  have a: "well_formed (s\<lparr>low_bits_counter := low_bits_counter s + 1\<rparr>)"
    using assms(1,2) by (simp add: well_formed_def)
  from assms(6) have w: "waitForRxLow 255 hw1 \<noteq> None" by simp
  show ?thesis
    using assms(2-5) StateReadData_enter_eq [OF a w]
    by (simp add: dispatch_def StateDetectBreak_handle_isr_def Let_def)
qed

lemma byte_step_branches:
  assumes "well_formed s" and "state s = READ_DATA" and "8 < bits_read_in_byte s" and "is_rx_high inp"
  shows "next_start_bit k inp = Some False \<longrightarrow>
      (\<exists>s'. dispatch k inp s = Inr s' \<and> state s' = DETECT_BREAK)"
    and "next_start_bit k inp = Some True \<and>
      num_bytes (rx_frame_buffers s ! unat (head_frame_buffer s)) + 1 < kMaxBytes \<longrightarrow>
      (\<exists>s'. dispatch k inp s = Inr s' \<and> state s' = READ_DATA)"
proof -
  from assms(3) have b: "bits_read_in_byte s \<noteq> 0" "\<not> bits_read_in_byte s \<le> 8"
    by (simp_all add: stop_bit_position)
  from append_byte_eq [OF assms(1,2)] obtain s2 where s2: "append_byte s = Inr s2" by blast
  note f = append_byte_wf [OF assms(1,2) s2]
  have nb: "num_bytes (frame_with_byte s) =
      num_bytes (rx_frame_buffers s ! unat (head_frame_buffer s)) + 1"
    by (simp add: frame_with_byte_def Let_def)
  show "next_start_bit k inp = Some False \<longrightarrow>
      (\<exists>s'. dispatch k inp s = Inr s' \<and> state s' = DETECT_BREAK)"
  proof
    assume "next_start_bit k inp = Some False"
    then obtain rest where w: "waitForRxLow (ucast k * 4) (polls inp) = Some (False, rest)"
      by (auto simp: next_start_bit_def)
    show "\<exists>s'. dispatch k inp s = Inr s' \<and> state s' = DETECT_BREAK"
      using assms(2) unfolding dispatch_def
      by (simp add: stop_bit_result [OF b assms(4) s2 w] step_fields)
  qed
  show "next_start_bit k inp = Some True \<and>
      num_bytes (rx_frame_buffers s ! unat (head_frame_buffer s)) + 1 < kMaxBytes \<longrightarrow>
      (\<exists>s'. dispatch k inp s = Inr s' \<and> state s' = READ_DATA)"
  proof
    assume a: "next_start_bit k inp = Some True \<and>
      num_bytes (rx_frame_buffers s ! unat (head_frame_buffer s)) + 1 < kMaxBytes"
    then obtain rest where w: "waitForRxLow (ucast k * 4) (polls inp) = Some (True, rest)"
      by (auto simp: next_start_bit_def)
    from a nb f have "\<not> kMaxBytes \<le> num_bytes (rx_frame_buffers s2 ! unat (head_frame_buffer s2))"
      by (simp add: not_le)
    then show "\<exists>s'. dispatch k inp s = Inr s' \<and> state s' = READ_DATA"
      using assms(2) f unfolding dispatch_def
      by (simp add: stop_bit_result [OF b assms(4) s2 w])
  qed
qed

text \<open>
  C8. The interrupt routine waits in three places: after a break,
  \<^verbatim>\<open>waitForRxHigh(255)\<close> for the line to be released and then \<^verbatim>\<open>waitForRxLow(255)\<close> for
  the first start bit; after each byte, \<^verbatim>\<open>waitForRxLow(kClockTicksPerBit * 4)\<close>. A wait
  returns at the latest on the first reading that shows the awaited level or a clock at
  least the timeout past the base. The decoder after a break is the same whatever the two
  waits return; only after a byte does the result decide: on a timeout the receiver goes
  back to break detection, on a start bit with room in the frame it goes on reading.
\<close>

theorem busy_waits_bounded_last_one_decides:
  "(i < length hw \<and> (\<not> fst (hw ! i) \<or> m \<le> snd (hw ! i) - snd r0) \<longrightarrow>
      (\<exists>found rest. waitForRxLow m (r0 # hw) = Some (found, rest) \<and>
         length hw - Suc i \<le> length rest)) \<and>
   (i < length hw \<and> (fst (hw ! i) \<or> m \<le> snd (hw ! i) - snd r0) \<longrightarrow>
      (\<exists>found rest. waitForRxHigh m (r0 # hw) = Some (found, rest) \<and>
         length hw - Suc i \<le> length rest)) \<and>
   (well_formed s \<and> state s = DETECT_BREAK \<and> \<not> is_rx_high inp \<and>
    \<not> low_bits_counter s + 1 < 10 \<and>
    waitForRxHigh 255 (polls inp) = Some (r1, hw1) \<and> waitForRxLow 255 hw1 = Some (r2, hw2) \<longrightarrow>
      dispatch k inp s =
        Inr (s\<lparr>low_bits_counter := low_bits_counter s + 1, state := READ_DATA, bytes_read := 0,
               bits_read_in_byte := 0,
               rx_frame_buffers := (rx_frame_buffers s)
                 [unat (head_frame_buffer s) :=
                    (rx_frame_buffers s ! unat (head_frame_buffer s))\<lparr>num_bytes := 0\<rparr>]\<rparr>)) \<and>
   (well_formed s \<and> state s = READ_DATA \<and> 8 < bits_read_in_byte s \<and> is_rx_high inp \<longrightarrow>
      (next_start_bit k inp = Some False \<longrightarrow>
         (\<exists>s'. dispatch k inp s = Inr s' \<and> state s' = DETECT_BREAK)) \<and>
      (next_start_bit k inp = Some True \<and>
       num_bytes (rx_frame_buffers s ! unat (head_frame_buffer s)) + 1 < kMaxBytes \<longrightarrow>
         (\<exists>s'. dispatch k inp s = Inr s' \<and> state s' = READ_DATA)))"
proof (intro conjI impI)
  assume "i < length hw \<and> (\<not> fst (hw ! i) \<or> m \<le> snd (hw ! i) - snd r0)"
  then show "\<exists>found rest. waitForRxLow m (r0 # hw) = Some (found, rest) \<and>
         length hw - Suc i \<le> length rest"
    using waitForRxLow_loop_returns [of i hw m "snd r0"] by (cases r0) simp
next
  assume "i < length hw \<and> (fst (hw ! i) \<or> m \<le> snd (hw ! i) - snd r0)"
  then show "\<exists>found rest. waitForRxHigh m (r0 # hw) = Some (found, rest) \<and>
         length hw - Suc i \<le> length rest"
    using waitForRxHigh_loop_returns [of i hw m "snd r0"] by (cases r0) simp
next
  assume "well_formed s \<and> state s = DETECT_BREAK \<and> \<not> is_rx_high inp \<and>
    \<not> low_bits_counter s + 1 < 10 \<and>
    waitForRxHigh 255 (polls inp) = Some (r1, hw1) \<and> waitForRxLow 255 hw1 = Some (r2, hw2)"
  then show "dispatch k inp s =
        Inr (s\<lparr>low_bits_counter := low_bits_counter s + 1, state := READ_DATA, bytes_read := 0,
               bits_read_in_byte := 0,
               rx_frame_buffers := (rx_frame_buffers s)
                 [unat (head_frame_buffer s) :=
                    (rx_frame_buffers s ! unat (head_frame_buffer s))\<lparr>num_bytes := 0\<rparr>]\<rparr>)"
    using break_step_ignores_waits by blast
next
  assume a: "well_formed s \<and> state s = READ_DATA \<and> 8 < bits_read_in_byte s \<and> is_rx_high inp"
  assume "next_start_bit k inp = Some False"
  with a byte_step_branches(1) [of s inp k]
  show "\<exists>s'. dispatch k inp s = Inr s' \<and> state s' = DETECT_BREAK" by blast
next
  assume a: "well_formed s \<and> state s = READ_DATA \<and> 8 < bits_read_in_byte s \<and> is_rx_high inp"
  assume "next_start_bit k inp = Some True \<and>
       num_bytes (rx_frame_buffers s ! unat (head_frame_buffer s)) + 1 < kMaxBytes"
  with a byte_step_branches(2) [of s inp k]
  show "\<exists>s'. dispatch k inp s = Inr s' \<and> state s' = READ_DATA" by blast
qed

theorem busy_waits_bounded_last_one_decides_witness:
  "(\<exists>found rest. waitForRxLow 104 ((True, 65500) # [(True, 65530), (True, 70), (False, 80)]) =
      Some (found, rest) \<and> 1 \<le> length rest) \<and>
   dispatch 26 \<lparr>is_rx_high = False, polls = [(False, 0), (False, 300), (True, 300), (True, 600)]\<rparr>
       ((init power_on)\<lparr>low_bits_counter := 9\<rparr>) =
     Inr ((init power_on)\<lparr>low_bits_counter := 10, state := READ_DATA\<rparr>)"
proof -
  let ?s = "(init power_on)\<lparr>low_bits_counter := 9\<rparr>"
  let ?inp = "\<lparr>is_rx_high = False, polls = [(False, 0), (False, 300), (True, 300), (True, 600)]\<rparr>"
  have h1: "(1 :: nat) < length [(True, 65530 :: uint16), (True, 70), (False, 80)] \<and>
      (\<not> fst ([(True, 65530 :: uint16), (True, 70), (False, 80)] ! 1) \<or>
       (104 :: uint16) \<le> snd ([(True, 65530 :: uint16), (True, 70), (False, 80)] ! 1) - snd (True, 65500 :: uint16))"
    by simp
  from busy_waits_bounded_last_one_decides
      [where i = 1 and hw = "[(True, 65530), (True, 70), (False, 80)]" and m = 104
        and ?r0.0 = "(True, 65500)", THEN conjunct1] h1
  have a: "\<exists>found rest. waitForRxLow 104 ((True, 65500) # [(True, 65530), (True, 70), (False, 80)]) =
      Some (found, rest) \<and> 1 \<le> length rest"
    by simp
  have wf: "well_formed ?s" by code_simp
  have c: "state ?s = DETECT_BREAK" "\<not> is_rx_high ?inp" "\<not> low_bits_counter ?s + 1 < 10"
    "waitForRxHigh 255 (polls ?inp) = Some (False, [(True, 300), (True, 600)])"
    "waitForRxLow 255 [(True, 300), (True, 600)] = Some (False, [])"
    by code_simp+
  from busy_waits_bounded_last_one_decides
      [where s = ?s and inp = ?inp and k = 26 and ?r1.0 = False and ?hw1.0 = "[(True, 300), (True, 600)]"
        and ?r2.0 = False and ?hw2.0 = "[]",
        THEN conjunct2, THEN conjunct2, THEN conjunct1] wf c
  have "dispatch 26 ?inp ?s =
        Inr (?s\<lparr>low_bits_counter := low_bits_counter ?s + 1, state := READ_DATA, bytes_read := 0,
               bits_read_in_byte := 0,
               rx_frame_buffers := (rx_frame_buffers ?s)
                 [unat (head_frame_buffer ?s) :=
                    (rx_frame_buffers ?s ! unat (head_frame_buffer ?s))\<lparr>num_bytes := 0\<rparr>]\<rparr>)"
    by blast
  also have "?s\<lparr>low_bits_counter := low_bits_counter ?s + 1, state := READ_DATA, bytes_read := 0,
               bits_read_in_byte := 0,
               rx_frame_buffers := (rx_frame_buffers ?s)
                 [unat (head_frame_buffer ?s) :=
                    (rx_frame_buffers ?s ! unat (head_frame_buffer ?s))\<lparr>num_bytes := 0\<rparr>]\<rparr> =
      (init power_on)\<lparr>low_bits_counter := 10, state := READ_DATA\<rparr>"
    by code_simp
  finally show ?thesis using a by simp
qed

text \<open>
  That every wait is branched on fails after a break: the line released in time, the timeout
  of the release wait, and the timeout of the wait for the first start bit (a third wait)
  all leave the same decoder, in the read-data state.
\<close>

theorem post_break_waits_not_branched_on:
  "waitForRxHigh 255 [(False, 0), (True, 1), (False, 1), (False, 2)] =
     Some (True, [(False, 1), (False, 2)]) \<and>
   waitForRxLow 255 [(False, 1), (False, 2)] = Some (True, []) \<and>
   waitForRxHigh 255 [(False, 0), (False, 300), (False, 300), (False, 301)] =
     Some (False, [(False, 300), (False, 301)]) \<and>
   waitForRxLow 255 [(False, 300), (False, 301)] = Some (True, []) \<and>
   waitForRxHigh 255 [(False, 0), (True, 1), (True, 1), (True, 300)] =
     Some (True, [(True, 1), (True, 300)]) \<and>
   waitForRxLow 255 [(True, 1), (True, 300)] = Some (False, []) \<and>
   isr 26 \<lparr>is_rx_high = False, polls = [(False, 0), (True, 1), (False, 1), (False, 2)]\<rparr>
       ((init power_on)\<lparr>low_bits_counter := 9\<rparr>) =
     Inr ((init power_on)\<lparr>low_bits_counter := 10, state := READ_DATA\<rparr>) \<and>
   isr 26 \<lparr>is_rx_high = False, polls = [(False, 0), (False, 300), (False, 300), (False, 301)]\<rparr>
       ((init power_on)\<lparr>low_bits_counter := 9\<rparr>) =
     Inr ((init power_on)\<lparr>low_bits_counter := 10, state := READ_DATA\<rparr>) \<and>
   isr 26 \<lparr>is_rx_high = False, polls = [(False, 0), (True, 1), (True, 1), (True, 300)]\<rparr>
       ((init power_on)\<lparr>low_bits_counter := 9\<rparr>) =
     Inr ((init power_on)\<lparr>low_bits_counter := 10, state := READ_DATA\<rparr>)"
  by code_simp

end
